theory Spec2Isabelle
  imports Main
begin

section \<open>The IR the generator reads\<close>

text \<open>
  The constraint generator of \<^verbatim>\<open>CPATypeInference.cpp\<close> reads an MLIR function: values
  with a declared type, operations with operands, results, traits and nested regions.
  A value is an identity together with its type; the only question the generator asks of
  a type is whether it is the \<^verbatim>\<open>UnknownType\<close> of the Basicpy dialect.
\<close>

datatype Type = UnknownType | IRType nat

datatype Value = Value (valueId: nat) (getType: Type)

text \<open>
  The operation classes the callback tests with \<^verbatim>\<open>dyn_cast\<close>, in the order of the
  source; every other operation is \<open>OtherOp\<close> and is told apart by its traits only.
  An operation also has its printed name (\<^verbatim>\<open>std.return\<close>, \<^verbatim>\<open>scf.yield\<close>), which the
  generator reads only when it emits an operation error.
\<close>

datatype OpName =
    SelectOp | ToBooleanOp | IfOp | YieldOp | UnknownCastOp
  | BinaryExprOp | BinaryCompareOp | OtherOp

datatype Operation =
  Operation (opId: nat) (getName: string) (opName: OpName)
            (hasConstantLike: bool) (hasReturnLike: bool)
            (getOperands: "Value list") (getResults: "Value list")
            (getRegions: "Block list list")
and Block =
  Block (getArguments: "Value list") (getOperations: "Operation list")

definition getNumOperands :: "Operation \<Rightarrow> nat" where
  "getNumOperands op = length (getOperands op)"

definition getNumResults :: "Operation \<Rightarrow> nat" where
  "getNumResults op = length (getResults op)"

text \<open>
  The named accessors of the operation classes, by operand position as their
  definitions declare them: \<^verbatim>\<open>select\<close> has (condition, true value, false value), the
  binary operations have (left, right), the one-operand operations have (operand).
\<close>

definition true_value :: "Operation \<Rightarrow> Value" where
  "true_value op = getOperands op ! 1"

definition false_value :: "Operation \<Rightarrow> Value" where
  "false_value op = getOperands op ! 2"

definition operand :: "Operation \<Rightarrow> Value" where
  "operand op = getOperands op ! 0"

definition left :: "Operation \<Rightarrow> Value" where
  "left op = getOperands op ! 0"

definition right :: "Operation \<Rightarrow> Value" where
  "right op = getOperands op ! 1"

definition result :: "Operation \<Rightarrow> Value" where
  "result op = getResults op ! 0"

text \<open>A function operation has one region, its body.\<close>

definition getBody :: "Operation \<Rightarrow> Block list" where
  "getBody funcOp = (case getRegions funcOp of [] \<Rightarrow> [] | body # _ \<Rightarrow> body)"

section \<open>The walk of the host framework\<close>

text \<open>
  \<^verbatim>\<open>funcOp.walk\<close> visits every operation nested under the function in post-order:
  for each region, each block and each operation of the block, first everything nested
  in that operation, then the operation itself. Each visit is paired with the operation
  that directly owns the visited one, which is what \<^verbatim>\<open>getParentOp()\<close> returns.
\<close>

fun walkOperation :: "Operation \<Rightarrow> Operation \<Rightarrow> (Operation \<times> Operation) list"
and walkBlock :: "Operation \<Rightarrow> Block \<Rightarrow> (Operation \<times> Operation) list" where
  "walkOperation parent (Operation i nm n c r os rs regions) =
     concat (map (\<lambda>region. concat (map (walkBlock (Operation i nm n c r os rs regions)) region))
                 regions)
     @ [(Operation i nm n c r os rs regions, parent)]"
| "walkBlock parent (Block args ops) = concat (map (walkOperation parent) ops)"

definition nestedOperations :: "Operation \<Rightarrow> (Operation \<times> Operation) list" where
  "nestedOperations funcOp = concat (map (walkBlock funcOp) (concat (getRegions funcOp)))"

datatype WalkResult = advance | interrupt

definition wasInterrupted :: "WalkResult \<Rightarrow> bool" where
  "wasInterrupted r = (r = interrupt)"

datatype LogicalResult = Success | Failure

text \<open>
  MLIR's \<^verbatim>\<open>success(bool isSuccess = true)\<close>: a success result when the argument is
  true, a failure result otherwise.
\<close>

definition success :: "bool \<Rightarrow> LogicalResult" where
  "success isSuccess = (if isSuccess then Success else Failure)"

section \<open>The type arena\<close>

text \<open>
  Modelled from the spec: the \<^verbatim>\<open>CPA::Context\<close> of \<^verbatim>\<open>npcomp/Typing/CPASupport.h\<close>,
  which is not part of the source at hand. The arena owns the type nodes of one run; a
  node is referred to by its position in the arena, which stands for the pointer of the
  source. \<open>newTypeVar\<close> always allocates a fresh node tied to the value;
  \<open>getIRValueType\<close> returns the node interned for an equal type if there is one and
  allocates it otherwise; \<open>newConstraint\<close> allocates an edge and inserts it nowhere.
\<close>

datatype TypeBase = TypeVar Value | IRValueType Type

type_synonym Context = "TypeBase list"

record Constraint =
  superType :: nat
  subType :: nat
  contextOp :: "Operation option"

definition newTypeVar :: "Value \<Rightarrow> Context \<Rightarrow> nat \<times> Context" where
  "newTypeVar v ctx = (length ctx, ctx @ [TypeVar v])"

fun findNode :: "TypeBase \<Rightarrow> Context \<Rightarrow> nat \<Rightarrow> nat option" where
  "findNode t [] i = None"
| "findNode t (n # ns) i = (if n = t then Some i else findNode t ns (Suc i))"

definition getIRValueType :: "Type \<Rightarrow> Context \<Rightarrow> nat \<times> Context" where
  "getIRValueType t ctx =
     (case findNode (IRValueType t) ctx 0 of
        Some i \<Rightarrow> (i, ctx)
      | None \<Rightarrow> (length ctx, ctx @ [IRValueType t]))"

definition newConstraint :: "nat \<Rightarrow> nat \<Rightarrow> Constraint" where
  "newConstraint superVt subVt = \<lparr>superType = superVt, subType = subVt, contextOp = None\<rparr>"

section \<open>The constraint generator\<close>

datatype Severity = Remark | Warning | Error

datatype Diagnostic = Diagnostic (severity: Severity) (location: Operation) (message: string)

text \<open>
  The state of one \<^verbatim>\<open>InitialConstraintGenerator\<close>: its own fields, the arena and the
  two output sets it was constructed with, and the diagnostics emitted so far.
\<close>

record Generator =
  valueTypeMap :: "Value \<rightharpoonup> nat"
  funcReturnOp :: "Operation option"
  innerReturnLikeOps :: "Operation list"
  cpaContext :: Context
  constraints :: "Constraint list"
  typeVars :: "nat list"
  diagnostics :: "Diagnostic list"

definition newGenerator :: Generator where
  "newGenerator = \<lparr>valueTypeMap = Map.empty, funcReturnOp = None, innerReturnLikeOps = [],
     cpaContext = [], constraints = [], typeVars = [], diagnostics = []\<rparr>"

definition getLastReturnOp :: "Generator \<Rightarrow> Operation option" where
  "getLastReturnOp g = funcReturnOp g"

definition getInnerReturnLikeOps :: "Generator \<Rightarrow> Operation list" where
  "getInnerReturnLikeOps g = innerReturnLikeOps g"

definition resolveValueType :: "Value \<Rightarrow> Generator \<Rightarrow> nat \<times> Generator" where
  "resolveValueType v g =
     (case valueTypeMap g v of
        Some cpaType \<Rightarrow> (cpaType, g)
      | None \<Rightarrow>
          if getType v = UnknownType then
            (let (cpaTypeVar, ctx) = newTypeVar v (cpaContext g)
             in (cpaTypeVar,
                 g\<lparr>valueTypeMap := (valueTypeMap g)(v \<mapsto> cpaTypeVar),
                   cpaContext := ctx,
                   typeVars := typeVars g @ [cpaTypeVar]\<rparr>))
          else
            (let (cpaType, ctx) = getIRValueType (getType v) (cpaContext g)
             in (cpaType,
                 g\<lparr>valueTypeMap := (valueTypeMap g)(v \<mapsto> cpaType),
                   cpaContext := ctx\<rparr>)))"

definition resolveValue :: "Value \<Rightarrow> Generator \<Rightarrow> Generator" where
  "resolveValue v g = snd (resolveValueType v g)"

definition addSubtypeConstraint :: "Value \<Rightarrow> Value \<Rightarrow> Operation \<Rightarrow> Generator \<Rightarrow> Generator" where
  "addSubtypeConstraint superValue subValue context g =
     (let (superVt, g1) = resolveValueType superValue g;
          (subVt, g2) = resolveValueType subValue g1;
          c = (newConstraint superVt subVt)\<lparr>contextOp := Some context\<rparr>
      in g2\<lparr>constraints := constraints g2 @ [c]\<rparr>)"

definition emit :: "Severity \<Rightarrow> Operation \<Rightarrow> string \<Rightarrow> Generator \<Rightarrow> Generator" where
  "emit sev op msg g = g\<lparr>diagnostics := diagnostics g @ [Diagnostic sev op msg]\<rparr>"

text \<open>
  MLIR's \<^verbatim>\<open>emitOpError\<close> emits an error whose text starts with the quoted name of the
  operation followed by \<^verbatim>\<open> op \<close>; \<^verbatim>\<open>emitWarning\<close> and \<^verbatim>\<open>emitRemark\<close> add no prefix.
\<close>

definition opErrorMessage :: "Operation \<Rightarrow> string \<Rightarrow> string" where
  "opErrorMessage op msg = [CHR 0x27] @ getName op @ [CHR 0x27] @ '' op '' @ msg"

definition emitOpError :: "Operation \<Rightarrow> string \<Rightarrow> Generator \<Rightarrow> Generator" where
  "emitOpError op msg g = emit Error op (opErrorMessage op msg) g"

text \<open>
  The body of the lambda passed to \<^verbatim>\<open>funcOp.walk\<close>, for the visited operation
  \<open>childOp\<close> whose \<^verbatim>\<open>getParentOp()\<close> is \<open>parentOp\<close>.
\<close>

definition callback :: "Operation \<Rightarrow> Operation \<Rightarrow> Operation \<Rightarrow> Generator \<Rightarrow> WalkResult \<times> Generator" where
  "callback funcOp childOp parentOp g =
    (if childOp = funcOp then (advance, g)
     else if opName childOp = SelectOp then
       (advance, addSubtypeConstraint (true_value childOp) (false_value childOp) childOp g)
     else if opName childOp = ToBooleanOp then
       (advance, resolveValue (operand childOp) g)
     else if opName childOp = IfOp then
       (advance, fold resolveValue (getResults childOp) g)
     else if opName childOp = YieldOp then
       (if getNumResults parentOp \<noteq> getNumOperands childOp then
          (advance, emit Warning childOp
             ''cannot run type inference on yield due to arity mismatch'' g)
        else
          (advance, fold (\<lambda>(res, opd). addSubtypeConstraint opd res childOp)
                         (zip (getResults parentOp) (getOperands childOp)) g))
     else if opName childOp = UnknownCastOp then
       (advance, addSubtypeConstraint (operand childOp) (result childOp) childOp g)
     else if opName childOp = BinaryExprOp then
       (advance, addSubtypeConstraint (left childOp) (result childOp) childOp
                   (addSubtypeConstraint (left childOp) (right childOp) childOp g))
     else if opName childOp = BinaryCompareOp then
       (advance, addSubtypeConstraint (left childOp) (right childOp) childOp g)
     else if hasConstantLike childOp then
       (advance, resolveValue (result childOp) g)
     else if hasReturnLike childOp then
       (if parentOp = funcOp then
          (case funcReturnOp g of
             None \<Rightarrow> (advance, g\<lparr>funcReturnOp := Some childOp\<rparr>)
           | Some ret \<Rightarrow>
               if getNumOperands ret \<noteq> getNumOperands childOp then
                 (interrupt, emitOpError childOp ''different arity of function returns'' g)
               else
                 (advance,
                  (fold (\<lambda>(retOpd, opd). addSubtypeConstraint retOpd opd childOp)
                        (zip (getOperands ret) (getOperands childOp)) g)
                  \<lparr>funcReturnOp := Some childOp\<rparr>))
        else
          (advance, emit Remark childOp ''unhandled op in type inference''
                      (g\<lparr>innerReturnLikeOps := innerReturnLikeOps g @ [childOp]\<rparr>)))
     else
       (advance, emit Remark childOp ''unhandled op in type inference'' g))"

text \<open>
  The walk calls the callback on each visited operation in turn and stops at the first
  interrupt. The last visit is the function itself, where the callback advances at once.
\<close>

fun walkFrom :: "Operation \<Rightarrow> (Operation \<times> Operation) list \<Rightarrow> Generator \<Rightarrow> WalkResult \<times> Generator" where
  "walkFrom funcOp [] g = (advance, g)"
| "walkFrom funcOp ((childOp, parentOp) # rest) g =
     (case callback funcOp childOp parentOp g of
        (interrupt, g') \<Rightarrow> (interrupt, g')
      | (advance, g') \<Rightarrow> walkFrom funcOp rest g')"

definition walk :: "Operation \<Rightarrow> Generator \<Rightarrow> WalkResult \<times> Generator" where
  "walk funcOp g = walkFrom funcOp (nestedOperations funcOp) g"

definition resolveEntryArguments :: "Operation \<Rightarrow> Generator \<Rightarrow> Generator" where
  "resolveEntryArguments funcOp g =
     (case getBody funcOp of
        [] \<Rightarrow> g
      | entryBlock # _ \<Rightarrow> fold resolveValue (getArguments entryBlock) g)"

definition runOnFunction :: "Operation \<Rightarrow> Generator \<Rightarrow> LogicalResult \<times> Generator" where
  "runOnFunction funcOp g =
     (if getBody funcOp = [] then (success True, g)
      else
        (let (res, g') = walk funcOp (resolveEntryArguments funcOp g)
         in (success (wasInterrupted res), g')))"

section \<open>Reading the outputs\<close>

text \<open>
  The node a value resolves to in a given state, and the constraint that
  \<open>addSubtypeConstraint\<close> records for a pair of values resolved in that state.
\<close>

definition nodeOf :: "Generator \<Rightarrow> Value \<Rightarrow> nat" where
  "nodeOf g v = fst (resolveValueType v g)"

definition edge :: "Generator \<Rightarrow> Value \<Rightarrow> Value \<Rightarrow> Operation \<Rightarrow> Constraint" where
  "edge g superValue subValue context =
     \<lparr>superType = nodeOf g superValue, subType = nodeOf g subValue, contextOp = Some context\<rparr>"

text \<open>
  The operations that reach the return-like fallback of the callback: none of the seven
  operation classes, not constant-like, and carrying the return-like trait.
\<close>

definition isReturnFallback :: "Operation \<Rightarrow> bool" where
  "isReturnFallback op \<longleftrightarrow> opName op = OtherOp \<and> \<not> hasConstantLike op \<and> hasReturnLike op"

text \<open>The operations owned directly by the function: those of the blocks of its body.\<close>

definition directOperations :: "Operation \<Rightarrow> Operation list" where
  "directOperations funcOp = concat (map getOperations (getBody funcOp))"

text \<open>
  The error-level diagnostics emitted so far, and the operand count of the return
  operation recorded in \<open>funcReturnOp\<close>.
\<close>

definition errors :: "Generator \<Rightarrow> Diagnostic list" where
  "errors g = filter (\<lambda>d. severity d = Error) (diagnostics g)"

definition returnArity :: "Generator \<Rightarrow> nat option" where
  "returnArity g = map_option getNumOperands (funcReturnOp g)"

text \<open>
  The function-level returns among the visits of a walk, in visit order: the operations
  that reach the return-like fallback with the function as parent.
\<close>

definition functionReturns :: "Operation \<Rightarrow> (Operation \<times> Operation) list \<Rightarrow> Operation list" where
  "functionReturns funcOp visits =
     map fst (filter (\<lambda>(c, p). c \<noteq> funcOp \<and> isReturnFallback c \<and> p = funcOp) visits)"

text \<open>
  The returns the generator records, given the function-level returns of the walk: each
  return replaces the one before it as long as their operand counts agree; at the first
  disagreement the walk stops and the earlier return stays recorded.
\<close>

fun recordedReturns :: "Operation list \<Rightarrow> Operation list" where
  "recordedReturns (r # r' # rs) =
     (if getNumOperands r = getNumOperands r' then r # recordedReturns (r' # rs) else [r])"
| "recordedReturns rs = rs"

definition lastOption :: "'a list \<Rightarrow> 'a option" where
  "lastOption xs = (if xs = [] then None else Some (last xs))"

definition recordedSeed :: "Generator \<Rightarrow> Operation list" where
  "recordedSeed g = (case funcReturnOp g of None \<Rightarrow> [] | Some r \<Rightarrow> [r])"

text \<open>
  The batch of constraints that pairs a return with the return recorded before it, operand
  by operand (previous operand as supertype), and the chain of batches along a list of
  returns.
\<close>

definition batch :: "Generator \<Rightarrow> Operation \<Rightarrow> Operation \<Rightarrow> Constraint list" where
  "batch g prev cur =
     map (\<lambda>(a, b). \<lparr>superType = nodeOf g a, subType = nodeOf g b, contextOp = Some cur\<rparr>)
         (zip (getOperands prev) (getOperands cur))"

fun returnChain :: "Generator \<Rightarrow> Operation list \<Rightarrow> Constraint list" where
  "returnChain g (r # r' # rs) = batch g r r' @ returnChain g (r' # rs)"
| "returnChain g rs = []"

text \<open>
  The constraints whose context is an operation of the return-like fallback: those that
  the function-return rule generates. \<open>operandsResolved\<close> says that the operands paired
  along a list of returns are memoized, so that \<open>nodeOf\<close> reads their recorded nodes.
\<close>

definition returnConstraints :: "Constraint list \<Rightarrow> Constraint list" where
  "returnConstraints ks =
     filter (\<lambda>k. case contextOp k of None \<Rightarrow> False | Some c \<Rightarrow> isReturnFallback c) ks"

definition operandsResolved :: "Generator \<Rightarrow> Operation list \<Rightarrow> bool" where
  "operandsResolved g rs \<longleftrightarrow>
     (\<forall>(prev, cur) \<in> set (zip rs (tl rs)).
        \<forall>(a, b) \<in> set (zip (getOperands prev) (getOperands cur)).
          valueTypeMap g a = Some (nodeOf g a) \<and> valueTypeMap g b = Some (nodeOf g b))"

section \<open>The invariant linking memo table, arena and type-variable set\<close>

text \<open>
  In a consistent state every memoized value points at the arena node made for it, every
  type-variable node of the arena is the memoized node of its value, and the
  type-variable set lists the type-variable nodes of the arena in allocation order. A
  fresh generator over a fresh arena is consistent, and every step of a run keeps it so.
\<close>

definition isTypeVar :: "TypeBase \<Rightarrow> bool" where
  "isTypeVar t = (case t of TypeVar _ \<Rightarrow> True | IRValueType _ \<Rightarrow> False)"

definition nodeFor :: "Value \<Rightarrow> TypeBase" where
  "nodeFor v = (if getType v = UnknownType then TypeVar v else IRValueType (getType v))"

definition consistent :: "Generator \<Rightarrow> bool" where
  "consistent g \<longleftrightarrow>
     (\<forall>v n. valueTypeMap g v = Some n \<longrightarrow>
        n < length (cpaContext g) \<and> cpaContext g ! n = nodeFor v)
   \<and> (\<forall>i v. i < length (cpaContext g) \<and> cpaContext g ! i = TypeVar v \<longrightarrow>
        valueTypeMap g v = Some i)
   \<and> typeVars g = filter (\<lambda>i. isTypeVar (cpaContext g ! i)) [0..<length (cpaContext g)]"

section \<open>Example functions\<close>

text \<open>
  Small function bodies on which the results below are evaluated. \<open>returnOf\<close> builds
  a return operation (return-like trait, no results), \<open>funcOf\<close> a function operation
  with the given body.
\<close>

definition valX :: Value where "valX = Value 0 UnknownType"

definition valY :: Value where "valY = Value 1 UnknownType"

definition valZ :: Value where "valZ = Value 2 UnknownType"

definition valCond :: Value where "valCond = Value 3 (IRType 1)"

definition returnOf :: "nat \<Rightarrow> Value list \<Rightarrow> Operation" where
  "returnOf i vs = Operation i ''std.return'' OtherOp False True vs [] []"

definition funcOf :: "Block list \<Rightarrow> Operation" where
  "funcOf body = Operation 0 ''func'' OtherOp False False [] [] [body]"

text \<open>A selection \<open>z = select cond, x, y\<close> followed by \<open>return z\<close>.\<close>

definition selectOp :: Operation where
  "selectOp = Operation 1 ''std.select'' SelectOp False False [valCond, valX, valY] [valZ] []"

definition selectFunc :: Operation where
  "selectFunc = funcOf [Block [valCond, valX, valY] [selectOp, returnOf 2 [valZ]]]"

text \<open>A binary expression \<open>z = x + y\<close> followed by \<open>return z\<close>.\<close>

definition addOp :: Operation where
  "addOp = Operation 1 ''basicpy.binary_expr'' BinaryExprOp False False [valX, valY] [valZ] []"

definition addFunc :: Operation where
  "addFunc = funcOf [Block [valX, valY] [addOp, returnOf 2 [valZ]]]"

text \<open>Three blocks, each ending in a return of one operand.\<close>

definition threeReturns :: Operation where
  "threeReturns = funcOf [Block [valX, valY, valZ] [returnOf 1 [valX]],
                          Block [] [returnOf 2 [valY]],
                          Block [] [returnOf 3 [valZ]]]"

text \<open>
  A return of one operand, then a return of two operands, then a block with a binary
  expression that the walk would visit after the second return.
\<close>

definition mismatchFunc :: Operation where
  "mismatchFunc = funcOf [Block [valX, valY] [returnOf 1 [valX]],
                          Block [] [returnOf 2 [valX, valY]],
                          Block [] [addOp, returnOf 3 [valZ]]]"

text \<open>An \<^verbatim>\<open>scf.if\<close> with two results whose region yields one operand.\<close>

definition yieldOp :: Operation where
  "yieldOp = Operation 1 ''scf.yield'' YieldOp False True [valX] [] []"

definition ifOp :: Operation where
  "ifOp = Operation 2 ''scf.if'' IfOp False False [valCond] [valY, valZ]
            [[Block [] [yieldOp]]]"

definition yieldFunc :: Operation where
  "yieldFunc = funcOf [Block [valCond, valX] [ifOp, returnOf 3 [valY]]]"

text \<open>
  A return-like terminator other than \<^verbatim>\<open>scf.yield\<close> inside the region of an operation
  of the function.
\<close>

definition innerReturn :: Operation where
  "innerReturn = Operation 1 ''shape.assuming_yield'' OtherOp False True [valX] [] []"

definition regionOp :: Operation where
  "regionOp = Operation 2 ''shape.assuming'' OtherOp False False [valCond] [valY]
                [[Block [] [innerReturn]]]"

definition nestedFunc :: Operation where
  "nestedFunc = funcOf [Block [valCond, valX] [regionOp, returnOf 3 [valY]]]"

text \<open>
  Three returns of one operand each, with a selection before the first and a binary
  expression before the second.
\<close>

definition valW :: Value where "valW = Value 4 UnknownType"

definition branchFunc :: Operation where
  "branchFunc = funcOf
     [Block [valCond, valX, valY] [selectOp, returnOf 2 [valX]],
      Block [] [Operation 3 ''basicpy.binary_expr'' BinaryExprOp False False [valX, valY] [valW] [],
                returnOf 4 [valY]],
      Block [] [returnOf 5 [valZ]]]"

text \<open>An \<^verbatim>\<open>scf.if\<close> with one result whose region yields one operand.\<close>

definition ifOne :: Operation where
  "ifOne = Operation 2 ''scf.if'' IfOp False False [valCond] [valY] [[Block [] [yieldOp]]]"

definition yieldMatchFunc :: Operation where
  "yieldMatchFunc = funcOf [Block [valCond, valX] [ifOne, returnOf 3 [valY]]]"

text \<open>A function whose body has no block.\<close>

definition emptyFunc :: Operation where
  "emptyFunc = Operation 0 ''func'' OtherOp False False [] [] [[]]"

section \<open>Resolving values\<close>

lemma resolveValueType_cached:
  "valueTypeMap g v = Some n \<Longrightarrow> resolveValueType v g = (n, g)"
  by (simp add: resolveValueType_def)

lemma resolveValueType_records:
  "resolveValueType v g = (n, g') \<Longrightarrow> valueTypeMap g' v = Some n"
  by (auto simp: resolveValueType_def newTypeVar_def getIRValueType_def
           split: option.splits if_splits)

lemma resolveValue_records: "valueTypeMap (resolveValue v g) v = Some (nodeOf g v)"
  using resolveValueType_records [of v g] by (simp add: resolveValue_def nodeOf_def prod_eq_iff)

lemma resolveValue_keeps:
  "valueTypeMap g w = Some m \<Longrightarrow> valueTypeMap (resolveValue v g) w = Some m"
  by (auto simp: resolveValue_def resolveValueType_def newTypeVar_def getIRValueType_def
           split: option.splits if_splits)

lemma nodeOf_cached: "valueTypeMap g v = Some n \<Longrightarrow> nodeOf g v = n"
  by (simp add: nodeOf_def resolveValueType_cached)

lemma resolveValue_frame [simp]:
  "funcReturnOp (resolveValue v g) = funcReturnOp g"
  "innerReturnLikeOps (resolveValue v g) = innerReturnLikeOps g"
  "constraints (resolveValue v g) = constraints g"
  "diagnostics (resolveValue v g) = diagnostics g"
  by (auto simp: resolveValue_def resolveValueType_def newTypeVar_def getIRValueType_def
           split: option.splits if_splits)

lemma nodeOf_update [simp]:
  "nodeOf (g\<lparr>constraints := cs\<rparr>) v = nodeOf g v"
  "nodeOf (g\<lparr>diagnostics := ds\<rparr>) v = nodeOf g v"
  "nodeOf (g\<lparr>funcReturnOp := r\<rparr>) v = nodeOf g v"
  "nodeOf (g\<lparr>innerReturnLikeOps := rs\<rparr>) v = nodeOf g v"
  by (auto simp: nodeOf_def resolveValueType_def newTypeVar_def getIRValueType_def
           split: option.splits)

lemma edge_update [simp]:
  "edge (g\<lparr>constraints := cs\<rparr>) a b op = edge g a b op"
  "edge (g\<lparr>funcReturnOp := r\<rparr>) a b op = edge g a b op"
  by (simp_all add: edge_def)

lemma addSubtypeConstraint_alt:
  "addSubtypeConstraint a b op g =
     (let g2 = resolveValue b (resolveValue a g)
      in g2\<lparr>constraints := constraints g2 @ [edge g2 a b op]\<rparr>)"
proof -
  obtain na g1 where r1: "resolveValueType a g = (na, g1)" by (cases "resolveValueType a g")
  obtain nb g2 where r2: "resolveValueType b g1 = (nb, g2)" by (cases "resolveValueType b g1")
  have g1: "g1 = resolveValue a g" using r1 by (simp add: resolveValue_def)
  have g2: "g2 = resolveValue b g1" using r2 by (simp add: resolveValue_def)
  have "valueTypeMap g1 a = Some na" using r1 by (rule resolveValueType_records)
  then have "valueTypeMap g2 a = Some na" unfolding g2 by (rule resolveValue_keeps)
  then have a: "nodeOf g2 a = na" by (rule nodeOf_cached)
  have "valueTypeMap g2 b = Some nb" using r2 by (rule resolveValueType_records)
  then have b: "nodeOf g2 b = nb" by (rule nodeOf_cached)
  have "addSubtypeConstraint a b op g =
          g2\<lparr>constraints := constraints g2 @ [edge g2 a b op]\<rparr>"
    by (simp add: addSubtypeConstraint_def r1 r2 edge_def newConstraint_def a b)
  then show ?thesis
    unfolding g2 g1 by (simp add: Let_def)
qed

section \<open>An invariant rule for the walk\<close>

text \<open>
  A property of the generator state that survives each elementary update survives a
  callback, and so a whole walk.
\<close>

lemma invariant_addSubtypeConstraint:
  assumes R: "\<And>v g. P g \<Longrightarrow> P (resolveValue v g)"
      and C: "\<And>k g. P g \<Longrightarrow> P (g\<lparr>constraints := constraints g @ [k]\<rparr>)"
      and "P g"
  shows "P (addSubtypeConstraint a b op g)"
proof -
  let ?g2 = "resolveValue b (resolveValue a g)"
  have "P ?g2" by (intro R assms(3))
  then have "P (?g2\<lparr>constraints := constraints ?g2 @ [edge ?g2 a b op]\<rparr>)" by (rule C)
  then show ?thesis by (simp only: addSubtypeConstraint_alt Let_def)
qed

lemma invariant_fold:
  assumes "\<And>x g. P g \<Longrightarrow> P (h x g)" and "P g"
  shows "P (fold h xs g)"
  using assms(2) by (induction xs arbitrary: g) (simp_all add: assms(1))

lemma invariant_callback:
  assumes R: "\<And>v g. P g \<Longrightarrow> P (resolveValue v g)"
      and C: "\<And>k g. P g \<Longrightarrow> P (g\<lparr>constraints := constraints g @ [k]\<rparr>)"
      and D: "\<And>d g. P g \<Longrightarrow> P (g\<lparr>diagnostics := diagnostics g @ [d]\<rparr>)"
      and F: "\<And>r g. P g \<Longrightarrow> P (g\<lparr>funcReturnOp := Some r\<rparr>)"
      and I: "\<And>r g. P g \<Longrightarrow> P (g\<lparr>innerReturnLikeOps := innerReturnLikeOps g @ [r]\<rparr>)"
      and g: "P g"
  shows "P (snd (callback f c p g))"
proof -
  have A: "\<And>a b op g. P g \<Longrightarrow> P (addSubtypeConstraint a b op g)"
    by (rule invariant_addSubtypeConstraint [of P, OF R C])
  have FR: "\<And>vs g. P g \<Longrightarrow> P (fold resolveValue vs g)"
    by (rule invariant_fold [of P, OF R])
  have FA: "\<And>ps g. P g \<Longrightarrow> P (fold (\<lambda>(x, y). addSubtypeConstraint x y c) ps g)"
    by (rule invariant_fold [of P]) (auto intro: A)
  have FB: "\<And>ps g. P g \<Longrightarrow> P (fold (\<lambda>(x, y). addSubtypeConstraint y x c) ps g)"
    by (rule invariant_fold [of P]) (auto intro: A)
  have E: "\<And>sev op msg g. P g \<Longrightarrow> P (emit sev op msg g)"
    unfolding emit_def by (rule D)
  have EO: "\<And>op msg g. P g \<Longrightarrow> P (emitOpError op msg g)"
    unfolding emitOpError_def by (rule E)
  show ?thesis
    using g by (auto simp: callback_def split: option.splits intro!: A R FR FA FB E EO F I)
qed

lemma invariant_walkFrom:
  assumes "\<And>c p g. P g \<Longrightarrow> P (snd (callback f c p g))" and "P g"
  shows "P (snd (walkFrom f vs g))"
  using assms(2)
proof (induction vs arbitrary: g)
  case Nil
  then show ?case by simp
next
  case (Cons x vs)
  obtain c p where x: "x = (c, p)" by (cases x)
  obtain r g' where cb: "callback f c p g = (r, g')" by (cases "callback f c p g")
  have "P g'" using assms(1) [OF Cons.prems, of c p] cb by simp
  then show ?case using Cons.IH [of g'] cb x by (cases r) simp_all
qed

section \<open>The visits of the walk\<close>

lemma walk_size:
  "(c, q) \<in> set (walkOperation p op) \<Longrightarrow> size c \<le> size op"
  "(c, q) \<in> set (walkBlock p b) \<Longrightarrow> size c < size b"
proof (induction p op and p b arbitrary: c q and c q rule: walkOperation_walkBlock.induct)
  case (1 parent i nm n cl r os rs regions)
  let ?op = "Operation i nm n cl r os rs regions"
  show ?case
  proof (cases "c = ?op")
    case True
    then show ?thesis by simp
  next
    case False
    then obtain region b where rb: "region \<in> set regions" "b \<in> set region"
        and m: "(c, q) \<in> set (walkBlock ?op b)"
      using "1.prems" by auto
    have "size c < size b" using "1.IH" [OF rb m] .
    moreover have "size b \<le> size_list size region"
      using rb(2) by (simp add: size_list_estimation')
    moreover have "size_list size region \<le> size_list (size_list size) regions"
      using rb(1) by (simp add: size_list_estimation')
    ultimately show ?thesis by simp
  qed
next
  case (2 parent args ops)
  then obtain op where op: "op \<in> set ops" and m: "(c, q) \<in> set (walkOperation parent op)"
    by auto
  have "size c \<le> size op" using "2.IH" [OF op m] .
  moreover have "size op \<le> size_list size ops"
    using op by (simp add: size_list_estimation')
  ultimately show ?case by simp
qed

lemma nestedOperations_neq: "(c, q) \<in> set (nestedOperations f) \<Longrightarrow> c \<noteq> f"
proof
  assume m: "(c, q) \<in> set (nestedOperations f)" and e: "c = f"
  obtain region b where rb: "region \<in> set (getRegions f)" "b \<in> set region"
      and w: "(c, q) \<in> set (walkBlock f b)"
    using m by (auto simp: nestedOperations_def)
  have "size c < size b" using w by (rule walk_size)
  moreover have "size b \<le> size_list size region"
    using rb(2) by (simp add: size_list_estimation')
  moreover have "size_list size region \<le> size_list (size_list size) (getRegions f)"
    using rb(1) by (simp add: size_list_estimation')
  ultimately have "size c < size f" by (cases f) simp
  then show False using e by simp
qed

lemma directOperations_body:
  "c \<in> set (directOperations f) \<Longrightarrow> getBody f \<noteq> [] \<and> getBody f \<in> set (getRegions f)"
  by (auto simp: directOperations_def getBody_def split: list.splits)

lemma directOperations_visited:
  assumes "c \<in> set (directOperations f)"
  shows "(c, f) \<in> set (nestedOperations f)"
proof -
  obtain b where b: "b \<in> set (getBody f)" and c: "c \<in> set (getOperations b)"
    using assms by (auto simp: directOperations_def)
  have r: "getBody f \<in> set (getRegions f)"
    using assms by (simp add: directOperations_body)
  have "(c, f) \<in> set (walkOperation f c)" by (cases c) simp
  then have "(c, f) \<in> set (walkBlock f b)" using c by (cases b) auto
  then show ?thesis using r b by (auto simp: nestedOperations_def)
qed

lemma walkFrom_append:
  "walkFrom f (xs @ ys) g =
     (case walkFrom f xs g of
        (interrupt, g') \<Rightarrow> (interrupt, g')
      | (advance, g') \<Rightarrow> walkFrom f ys g')"
proof (induction xs arbitrary: g)
  case Nil
  show ?case by simp
next
  case (Cons x xs)
  obtain c p where x: "x = (c, p)" by (cases x)
  obtain r g1 where cb: "callback f c p g = (r, g1)" by (cases "callback f c p g")
  show ?case using Cons.IH [of g1] by (cases r) (simp_all add: x cb)
qed

section \<open>The memo table only grows\<close>

lemma addSubtypeConstraint_keeps:
  "valueTypeMap g w = Some m \<Longrightarrow> valueTypeMap (addSubtypeConstraint a b op g) w = Some m"
  by (rule invariant_addSubtypeConstraint) (simp_all add: resolveValue_keeps)

lemma fold_addSubtypeConstraint_keeps:
  "valueTypeMap g w = Some m \<Longrightarrow>
   valueTypeMap (fold (\<lambda>p. addSubtypeConstraint (sp p) (sb p) op) ps g) w = Some m"
  by (rule invariant_fold) (simp_all add: addSubtypeConstraint_keeps)

lemma callback_keeps:
  "valueTypeMap g w = Some m \<Longrightarrow> valueTypeMap (snd (callback f c p g)) w = Some m"
  by (rule invariant_callback) (simp_all add: resolveValue_keeps)

lemma walkFrom_keeps:
  "valueTypeMap g w = Some m \<Longrightarrow> valueTypeMap (snd (walkFrom f vs g)) w = Some m"
  by (rule invariant_walkFrom) (simp_all add: callback_keeps)

section \<open>The constraints a step appends\<close>

lemma addSubtypeConstraint_frame [simp]:
  "funcReturnOp (addSubtypeConstraint a b op g) = funcReturnOp g"
  "innerReturnLikeOps (addSubtypeConstraint a b op g) = innerReturnLikeOps g"
  "diagnostics (addSubtypeConstraint a b op g) = diagnostics g"
  by (simp_all add: addSubtypeConstraint_alt Let_def)

lemma addSubtypeConstraint_constraints:
  "constraints (addSubtypeConstraint a b op g) =
     constraints g @ [edge (addSubtypeConstraint a b op g) a b op]"
  by (simp add: addSubtypeConstraint_alt Let_def)

lemma case_prod_addSubtypeConstraint:
  "(\<lambda>(x, y). addSubtypeConstraint x y c) = (\<lambda>p. addSubtypeConstraint (fst p) (snd p) c)"
  "(\<lambda>(x, y). addSubtypeConstraint y x c) = (\<lambda>p. addSubtypeConstraint (snd p) (fst p) c)"
  by (rule ext, simp add: case_prod_beta)+

lemma addSubtypeConstraint_records:
  "valueTypeMap (addSubtypeConstraint a b op g) a = Some (nodeOf (addSubtypeConstraint a b op g) a)"
  "valueTypeMap (addSubtypeConstraint a b op g) b = Some (nodeOf (addSubtypeConstraint a b op g) b)"
proof -
  let ?g1 = "resolveValue a g"
  let ?g2 = "resolveValue b ?g1"
  have a: "valueTypeMap ?g2 a = Some (nodeOf g a)"
    by (rule resolveValue_keeps) (rule resolveValue_records)
  have b: "valueTypeMap ?g2 b = Some (nodeOf ?g1 b)" by (rule resolveValue_records)
  show "valueTypeMap (addSubtypeConstraint a b op g) a = Some (nodeOf (addSubtypeConstraint a b op g) a)"
    using a nodeOf_cached [OF a] by (simp add: addSubtypeConstraint_alt Let_def)
  show "valueTypeMap (addSubtypeConstraint a b op g) b = Some (nodeOf (addSubtypeConstraint a b op g) b)"
    using b nodeOf_cached [OF b] by (simp add: addSubtypeConstraint_alt Let_def)
qed

lemma edge_stable:
  assumes "valueTypeMap g a = Some (nodeOf g a)" "valueTypeMap g b = Some (nodeOf g b)"
      and "\<And>w m. valueTypeMap g w = Some m \<Longrightarrow> valueTypeMap g' w = Some m"
  shows "edge g' a b op = edge g a b op"
proof -
  have "nodeOf g' a = nodeOf g a" by (rule nodeOf_cached) (rule assms(3), rule assms(1))
  moreover have "nodeOf g' b = nodeOf g b" by (rule nodeOf_cached) (rule assms(3), rule assms(2))
  ultimately show ?thesis by (simp add: edge_def)
qed

lemma fold_addSubtypeConstraint_frame [simp]:
  "funcReturnOp (fold (\<lambda>p. addSubtypeConstraint (sp p) (sb p) op) ps g) = funcReturnOp g"
  "innerReturnLikeOps (fold (\<lambda>p. addSubtypeConstraint (sp p) (sb p) op) ps g) = innerReturnLikeOps g"
  "diagnostics (fold (\<lambda>p. addSubtypeConstraint (sp p) (sb p) op) ps g) = diagnostics g"
  by (induction ps arbitrary: g) simp_all

lemma fold_resolveValue_frame [simp]:
  "funcReturnOp (fold resolveValue vs g) = funcReturnOp g"
  "innerReturnLikeOps (fold resolveValue vs g) = innerReturnLikeOps g"
  "constraints (fold resolveValue vs g) = constraints g"
  "diagnostics (fold resolveValue vs g) = diagnostics g"
  by (induction vs arbitrary: g) simp_all

lemma fold_addSubtypeConstraint_constraints:
  "constraints (fold (\<lambda>p. addSubtypeConstraint (sp p) (sb p) op) ps g) =
     constraints g @
     map (\<lambda>p. edge (fold (\<lambda>p. addSubtypeConstraint (sp p) (sb p) op) ps g) (sp p) (sb p) op) ps"
proof (induction ps arbitrary: g)
  case Nil
  show ?case by simp
next
  case (Cons p ps)
  let ?h = "\<lambda>p. addSubtypeConstraint (sp p) (sb p) op"
  let ?g1 = "?h p g"
  let ?g' = "fold ?h ps ?g1"
  have e: "edge ?g' (sp p) (sb p) op = edge ?g1 (sp p) (sb p) op"
    by (rule edge_stable) (simp_all add: addSubtypeConstraint_records fold_addSubtypeConstraint_keeps)
  have "constraints ?g' = constraints ?g1 @ map (\<lambda>p. edge ?g' (sp p) (sb p) op) ps"
    by (rule Cons.IH)
  also have "constraints ?g1 = constraints g @ [edge ?g1 (sp p) (sb p) op]"
    by (rule addSubtypeConstraint_constraints)
  finally have "constraints ?g' = constraints g @ map (\<lambda>p. edge ?g' (sp p) (sb p) op) (p # ps)"
    by (simp only: e list.map append.simps append_assoc)
  then show ?case by (simp only: fold_simps)
qed

lemma resolved_nodeOf:
  "v \<in> dom (valueTypeMap g) \<Longrightarrow> valueTypeMap g v = Some (nodeOf g v)"
  by (auto simp: nodeOf_cached)

lemma addSubtypeConstraint_dom:
  "a \<in> dom (valueTypeMap (addSubtypeConstraint a b op g))"
  "b \<in> dom (valueTypeMap (addSubtypeConstraint a b op g))"
  by (rule domI, rule addSubtypeConstraint_records)+

lemma fold_addSubtypeConstraint_keeps_dom:
  assumes "v \<in> dom (valueTypeMap g)"
  shows "v \<in> dom (valueTypeMap (fold (\<lambda>p. addSubtypeConstraint (sp p) (sb p) op) ps g))"
proof -
  obtain m where "valueTypeMap g v = Some m" using assms by blast
  then have "valueTypeMap (fold (\<lambda>p. addSubtypeConstraint (sp p) (sb p) op) ps g) v = Some m"
    by (rule fold_addSubtypeConstraint_keeps)
  then show ?thesis by (rule domI)
qed

lemma fold_addSubtypeConstraint_records:
  "p \<in> set ps \<Longrightarrow>
     sp p \<in> dom (valueTypeMap (fold (\<lambda>p. addSubtypeConstraint (sp p) (sb p) op) ps g)) \<and>
     sb p \<in> dom (valueTypeMap (fold (\<lambda>p. addSubtypeConstraint (sp p) (sb p) op) ps g))"
proof (induction ps arbitrary: g)
  case Nil
  then show ?case by simp
next
  case (Cons q qs)
  let ?g1 = "addSubtypeConstraint (sp q) (sb q) op g"
  show ?case
  proof (cases "p = q")
    case True
    have "sp q \<in> dom (valueTypeMap (fold (\<lambda>p. addSubtypeConstraint (sp p) (sb p) op) qs ?g1))"
         "sb q \<in> dom (valueTypeMap (fold (\<lambda>p. addSubtypeConstraint (sp p) (sb p) op) qs ?g1))"
      by (rule fold_addSubtypeConstraint_keeps_dom, rule addSubtypeConstraint_dom)+
    then show ?thesis unfolding True by (simp only: fold_simps comp_def) 
  next
    case False
    then have "p \<in> set qs" using Cons.prems by simp
    then show ?thesis using Cons.IH [of ?g1] by (simp only: fold_simps comp_def)
  qed
qed

lemma edge_stable_dom:
  assumes "a \<in> dom (valueTypeMap g)" "b \<in> dom (valueTypeMap g)"
      and "\<And>w m. valueTypeMap g w = Some m \<Longrightarrow> valueTypeMap g' w = Some m"
  shows "edge g' a b op = edge g a b op"
  by (rule edge_stable) (simp_all add: assms resolved_nodeOf)

section \<open>Returns owned by the function\<close>

lemma callback_first_return:
  assumes "c \<noteq> f" "isReturnFallback c" "funcReturnOp g = None"
  shows "callback f c f g = (advance, g\<lparr>funcReturnOp := Some c\<rparr>)"
  using assms by (simp add: callback_def isReturnFallback_def)

lemma callback_mismatch:
  assumes "c \<noteq> f" "isReturnFallback c" "funcReturnOp g = Some ret"
      and "getNumOperands ret \<noteq> getNumOperands c"
  shows "callback f c f g = (interrupt, emitOpError c ''different arity of function returns'' g)"
  using assms by (simp add: callback_def isReturnFallback_def)

lemma callback_later_return:
  assumes "c \<noteq> f" "isReturnFallback c" "funcReturnOp g = Some ret"
      and "getNumOperands ret = getNumOperands c"
  shows "\<exists>g'. callback f c f g = (advance, g') \<and> funcReturnOp g' = Some c
           \<and> constraints g' = constraints g @
                map (\<lambda>(a, b). edge g' a b c) (zip (getOperands ret) (getOperands c))
           \<and> (\<forall>(a, b) \<in> set (zip (getOperands ret) (getOperands c)).
                 a \<in> dom (valueTypeMap g') \<and> b \<in> dom (valueTypeMap g'))
           \<and> (\<forall>w m. valueTypeMap g w = Some m \<longrightarrow> valueTypeMap g' w = Some m)
           \<and> diagnostics g' = diagnostics g \<and> innerReturnLikeOps g' = innerReturnLikeOps g"
proof -
  let ?ps = "zip (getOperands ret) (getOperands c)"
  let ?h = "\<lambda>p. addSubtypeConstraint (fst p) (snd p) c"
  let ?g1 = "fold ?h ?ps g"
  let ?g' = "?g1\<lparr>funcReturnOp := Some c\<rparr>"
  have h: "(\<lambda>(retOpd, opd). addSubtypeConstraint retOpd opd c) = ?h"
    by (rule case_prod_addSubtypeConstraint)
  have cb: "callback f c f g = (advance, ?g')"
    using assms by (simp add: callback_def isReturnFallback_def h)
  have cs: "constraints ?g1 = constraints g @ map (\<lambda>p. edge ?g1 (fst p) (snd p) c) ?ps"
    by (rule fold_addSubtypeConstraint_constraints)
  have dom: "\<forall>p \<in> set ?ps. fst p \<in> dom (valueTypeMap ?g1) \<and> snd p \<in> dom (valueTypeMap ?g1)"
    using fold_addSubtypeConstraint_records [of _ ?ps fst snd c g] by blast
  have keeps: "\<forall>w m. valueTypeMap g w = Some m \<longrightarrow> valueTypeMap ?g1 w = Some m"
    by (simp add: fold_addSubtypeConstraint_keeps)
  show ?thesis
    using cb cs dom keeps by (auto simp: case_prod_beta)
qed

lemma callback_interrupt:
  assumes "callback f c p g = (interrupt, g')"
  shows "p = f \<and> g' = emitOpError c ''different arity of function returns'' g
         \<and> isReturnFallback c
         \<and> (\<exists>ret. funcReturnOp g = Some ret \<and> getNumOperands ret \<noteq> getNumOperands c)"
  using assms
  by (auto simp: callback_def isReturnFallback_def split: if_splits option.splits)
     (cases "opName c", simp_all)+

section \<open>Diagnostics and interruption\<close>

lemma errors_frame [simp]:
  "errors (resolveValue v g) = errors g"
  "errors (g\<lparr>constraints := cs\<rparr>) = errors g"
  "errors (g\<lparr>funcReturnOp := r\<rparr>) = errors g"
  "errors (g\<lparr>innerReturnLikeOps := rs\<rparr>) = errors g"
  "errors (addSubtypeConstraint a b op g) = errors g"
  "errors (fold resolveValue vs g) = errors g"
  "errors (fold (\<lambda>p. addSubtypeConstraint (sp p) (sb p) op) ps g) = errors g"
  by (simp_all add: errors_def)

lemma errors_emit:
  "errors (emit sev op msg g) =
     (if sev = Error then errors g @ [Diagnostic Error op msg] else errors g)"
  by (simp add: errors_def emit_def)

lemma callback_advance_errors:
  assumes "callback f c p g = (advance, g')"
  shows "errors g' = errors g"
  using assms
  by (auto simp: callback_def errors_emit case_prod_addSubtypeConstraint
           split: if_splits option.splits)

lemma walkFrom_interrupt:
  assumes "walkFrom f vs g = (interrupt, g')"
  shows "\<exists>pre c p post g1. vs = pre @ (c, p) # post
           \<and> walkFrom f pre g = (advance, g1)
           \<and> callback f c p g1 = (interrupt, g')"
  using assms
proof (induction vs arbitrary: g)
  case Nil
  then show ?case by simp
next
  case (Cons x vs)
  obtain c p where x: "x = (c, p)" by (cases x)
  obtain r g1 where cb: "callback f c p g = (r, g1)" by (cases "callback f c p g")
  show ?case
  proof (cases r)
    case interrupt
    then have "callback f c p g = (interrupt, g')" using Cons.prems x cb by simp
    then have "x # vs = [] @ (c, p) # vs \<and> walkFrom f [] g = (advance, g)
                 \<and> callback f c p g = (interrupt, g')"
      using x by simp
    then show ?thesis by blast
  next
    case advance
    then have "walkFrom f vs g1 = (interrupt, g')" using Cons.prems x cb by simp
    then obtain pre c' p' post g2 where v: "vs = pre @ (c', p') # post"
        and w: "walkFrom f pre g1 = (advance, g2)"
        and i: "callback f c' p' g2 = (interrupt, g')"
      using Cons.IH by blast
    have "x # vs = (x # pre) @ (c', p') # post" using v by simp
    moreover have "walkFrom f (x # pre) g = (advance, g2)" using w x cb advance by simp
    ultimately show ?thesis using i by blast
  qed
qed

lemma walkFrom_advance_errors:
  assumes "walkFrom f vs g = (advance, g')"
  shows "errors g' = errors g"
  using assms
proof (induction vs arbitrary: g)
  case Nil
  then show ?case by simp
next
  case (Cons x vs)
  obtain c p where x: "x = (c, p)" by (cases x)
  obtain r g1 where cb: "callback f c p g = (r, g1)" by (cases "callback f c p g")
  have r: "r = advance" using Cons.prems x cb by (cases r) simp_all
  have "errors g1 = errors g" using cb r by (simp add: callback_advance_errors)
  moreover have "errors g' = errors g1" using Cons.prems x cb r by (simp add: Cons.IH)
  ultimately show ?case by simp
qed

text \<open>
  While the walk advances, the operand count of the recorded return never changes, and
  every return owned by the function agrees with it.
\<close>

lemma callback_advance_arity:
  assumes "callback f c p g = (advance, g')" and "returnArity g = Some n"
  shows "returnArity g' = Some n"
  using assms
  by (auto simp: callback_def returnArity_def emit_def case_prod_addSubtypeConstraint
                 resolveValue_frame
           split: if_splits option.splits)

lemma callback_advance_return:
  assumes "callback f c f g = (advance, g')" and "c \<noteq> f" and "isReturnFallback c"
  shows "returnArity g' = Some (getNumOperands c)"
  using assms
  by (auto simp: callback_def returnArity_def isReturnFallback_def
                 case_prod_addSubtypeConstraint
           split: if_splits option.splits)

lemma walkFrom_advance_arity:
  assumes "walkFrom f vs g = (advance, g')" and "returnArity g = Some n"
  shows "returnArity g' = Some n"
  using assms
proof (induction vs arbitrary: g)
  case Nil
  then show ?case by simp
next
  case (Cons x vs)
  obtain c p where x: "x = (c, p)" by (cases x)
  obtain r g1 where cb: "callback f c p g = (r, g1)" by (cases "callback f c p g")
  have r: "r = advance" using Cons.prems(1) x cb by (cases r) simp_all
  have "returnArity g1 = Some n" using cb r Cons.prems(2) by (simp add: callback_advance_arity)
  moreover have "walkFrom f vs g1 = (advance, g')" using Cons.prems(1) x cb r by simp
  ultimately show ?case by (rule Cons.IH [rotated])
qed

lemma walkFrom_advance_return:
  assumes "walkFrom f vs g = (advance, g')" and "(c, f) \<in> set vs"
      and "c \<noteq> f" and "isReturnFallback c"
  shows "returnArity g' = Some (getNumOperands c)"
  using assms(1,2)
proof (induction vs arbitrary: g)
  case Nil
  then show ?case by simp
next
  case (Cons x vs)
  obtain c' p where x: "x = (c', p)" by (cases x)
  obtain r g1 where cb: "callback f c' p g = (r, g1)" by (cases "callback f c' p g")
  have r: "r = advance" using Cons.prems(1) x cb by (cases r) simp_all
  have w: "walkFrom f vs g1 = (advance, g')" using Cons.prems(1) x cb r by simp
  show ?case
  proof (cases "(c, f) \<in> set vs")
    case True
    with w show ?thesis by (rule Cons.IH)
  next
    case False
    then have "c' = c" "p = f" using Cons.prems(2) x by auto
    then have "returnArity g1 = Some (getNumOperands c)"
      using cb r assms(3,4) by (simp add: callback_advance_return)
    with w show ?thesis by (rule walkFrom_advance_arity)
  qed
qed

section \<open>The inner return-like list only grows\<close>

lemma innerReturnLikeOps_grows:
  "c \<in> set (innerReturnLikeOps g) \<Longrightarrow> c \<in> set (innerReturnLikeOps (snd (callback f c' p g)))"
  by (rule invariant_callback) simp_all

lemma innerReturnLikeOps_walkFrom:
  "c \<in> set (innerReturnLikeOps g) \<Longrightarrow> c \<in> set (innerReturnLikeOps (snd (walkFrom f vs g)))"
  by (rule invariant_walkFrom) (simp_all add: innerReturnLikeOps_grows)

section \<open>Yields\<close>

text \<open>
  A yield whose operand count differs from the result count of its parent gets a warning
  and no constraint; otherwise each operand is constrained as supertype of the parent's
  result at the same position.
\<close>

lemma yield_arity_mismatch:
  assumes "childOp \<noteq> funcOp" and "opName childOp = YieldOp"
      and "getNumResults parentOp \<noteq> getNumOperands childOp"
  shows "callback funcOp childOp parentOp g =
           (advance, emit Warning childOp
              ''cannot run type inference on yield due to arity mismatch'' g)"
  using assms by (simp add: callback_def)

lemma yield_arity_match:
  assumes "childOp \<noteq> funcOp" and "opName childOp = YieldOp"
      and "getNumResults parentOp = getNumOperands childOp"
  shows "\<exists>g'. callback funcOp childOp parentOp g = (advance, g')
           \<and> constraints g' = constraints g @
                 map (\<lambda>(res, opd). \<lparr>superType = nodeOf g' opd, subType = nodeOf g' res,
                                       contextOp = Some childOp\<rparr>)
                     (zip (getResults parentOp) (getOperands childOp))
           \<and> diagnostics g' = diagnostics g"
proof -
  let ?ps = "zip (getResults parentOp) (getOperands childOp)"
  let ?g' = "fold (\<lambda>p. addSubtypeConstraint (snd p) (fst p) childOp) ?ps g"
  have cb: "callback funcOp childOp parentOp g = (advance, ?g')"
    using assms by (simp add: callback_def case_prod_addSubtypeConstraint)
  have "constraints ?g' = constraints g @ map (\<lambda>p. edge ?g' (snd p) (fst p) childOp) ?ps"
    by (rule fold_addSubtypeConstraint_constraints)
  then show ?thesis using cb by (simp add: edge_def case_prod_beta)
qed

section \<open>Consistency is kept\<close>

lemma findNode_Some:
  "findNode t ns k = Some i \<Longrightarrow> k \<le> i \<and> i - k < length ns \<and> ns ! (i - k) = t"
proof (induction ns arbitrary: k)
  case Nil
  then show ?case by simp
next
  case (Cons n ns)
  show ?case
  proof (cases "n = t")
    case True
    then show ?thesis using Cons.prems by simp
  next
    case False
    then have "findNode t ns (Suc k) = Some i" using Cons.prems by simp
    then have "Suc k \<le> i \<and> i - Suc k < length ns \<and> ns ! (i - Suc k) = t" by (rule Cons.IH)
    then have a: "Suc k \<le> i" "i - Suc k < length ns" "ns ! (i - Suc k) = t" by simp_all
    have "i - k = Suc (i - Suc k)" using a(1) by simp
    then show ?thesis using a by simp
  qed
qed

lemma filter_upt_snoc:
  assumes "\<And>i. i < n \<Longrightarrow> P i = Q i"
  shows "filter P [0..<Suc n] = filter Q [0..<n] @ (if P n then [n] else [])"
proof -
  have "filter P [0..<n] = filter Q [0..<n]"
    by (rule filter_cong) (simp_all add: assms)
  then show ?thesis by simp
qed

lemma consistent_newGenerator: "consistent newGenerator"
  by (simp add: consistent_def newGenerator_def)

lemma consistent_allocate:
  assumes c: "consistent g" and v: "valueTypeMap g v = None"
      and g': "valueTypeMap g' = (valueTypeMap g)(v \<mapsto> length (cpaContext g))"
              "cpaContext g' = cpaContext g @ [nodeFor v]"
              "typeVars g' = typeVars g @ (if isTypeVar (nodeFor v) then [length (cpaContext g)] else [])"
  shows "consistent g'"
proof -
  let ?ctx = "cpaContext g"
  have m: "\<And>w n. valueTypeMap g w = Some n \<Longrightarrow> n < length ?ctx \<and> ?ctx ! n = nodeFor w"
    using c unfolding consistent_def by blast
  have t: "\<And>i w. i < length ?ctx \<Longrightarrow> ?ctx ! i = TypeVar w \<Longrightarrow> valueTypeMap g w = Some i"
    using c unfolding consistent_def by blast
  have tv: "typeVars g = filter (\<lambda>i. isTypeVar (?ctx ! i)) [0..<length ?ctx]"
    using c unfolding consistent_def by blast
  have 1: "n < length (cpaContext g') \<and> cpaContext g' ! n = nodeFor w"
    if "valueTypeMap g' w = Some n" for w n
  proof (cases "w = v")
    case True
    then have "n = length ?ctx" using that g'(1) by simp
    then show ?thesis using True g'(2) by simp
  next
    case False
    then have "valueTypeMap g w = Some n" using that g'(1) by simp
    then have "n < length ?ctx \<and> ?ctx ! n = nodeFor w" by (rule m)
    then show ?thesis using g'(2) by (simp add: nth_append)
  qed
  have 2: "valueTypeMap g' w = Some i"
    if "i < length (cpaContext g') \<and> cpaContext g' ! i = TypeVar w" for i w
  proof (cases "i < length ?ctx")
    case True
    then have "?ctx ! i = TypeVar w" using that g'(2) by (simp add: nth_append)
    with True have s: "valueTypeMap g w = Some i" by (rule t)
    then have "w \<noteq> v" using v by auto
    then show ?thesis using s g'(1) by simp
  next
    case False
    then have i: "i = length ?ctx" using that g'(2) by simp
    then have "nodeFor v = TypeVar w" using that g'(2) by simp
    then have "w = v" by (simp add: nodeFor_def split: if_splits)
    then show ?thesis using i g'(1) by simp
  qed
  have 3: "typeVars g' = filter (\<lambda>i. isTypeVar (cpaContext g' ! i)) [0..<length (cpaContext g')]"
  proof -
    have "filter (\<lambda>i. isTypeVar ((?ctx @ [nodeFor v]) ! i)) [0..<Suc (length ?ctx)]
            = filter (\<lambda>i. isTypeVar (?ctx ! i)) [0..<length ?ctx]
              @ (if isTypeVar ((?ctx @ [nodeFor v]) ! length ?ctx) then [length ?ctx] else [])"
      by (rule filter_upt_snoc) (simp add: nth_append)
    then show ?thesis using g'(2,3) tv by simp
  qed
  show ?thesis unfolding consistent_def using 1 2 3 by blast
qed

lemma consistent_reuse:
  assumes c: "consistent g" and v: "valueTypeMap g v = None"
      and i: "i < length (cpaContext g)" "cpaContext g ! i = nodeFor v"
      and g': "valueTypeMap g' = (valueTypeMap g)(v \<mapsto> i)"
              "cpaContext g' = cpaContext g" "typeVars g' = typeVars g"
  shows "consistent g'"
proof -
  let ?ctx = "cpaContext g"
  have m: "\<And>w n. valueTypeMap g w = Some n \<Longrightarrow> n < length ?ctx \<and> ?ctx ! n = nodeFor w"
    using c unfolding consistent_def by blast
  have t: "\<And>i w. i < length ?ctx \<Longrightarrow> ?ctx ! i = TypeVar w \<Longrightarrow> valueTypeMap g w = Some i"
    using c unfolding consistent_def by blast
  have tv: "typeVars g = filter (\<lambda>i. isTypeVar (?ctx ! i)) [0..<length ?ctx]"
    using c unfolding consistent_def by blast
  have 1: "n < length (cpaContext g') \<and> cpaContext g' ! n = nodeFor w"
    if "valueTypeMap g' w = Some n" for w n
  proof (cases "w = v")
    case True
    then have "n = i" using that g'(1) by simp
    then show ?thesis using True g'(2) i by simp
  next
    case False
    then have "valueTypeMap g w = Some n" using that g'(1) by simp
    then have "n < length ?ctx \<and> ?ctx ! n = nodeFor w" by (rule m)
    then show ?thesis using g'(2) by simp
  qed
  have 2: "valueTypeMap g' w = Some k"
    if "k < length (cpaContext g') \<and> cpaContext g' ! k = TypeVar w" for k w
  proof -
    have "k < length ?ctx" "?ctx ! k = TypeVar w" using that g'(2) by simp_all
    then have s: "valueTypeMap g w = Some k" by (rule t)
    then have "w \<noteq> v" using v by auto
    then show ?thesis using s g'(1) by simp
  qed
  have 3: "typeVars g' = filter (\<lambda>i. isTypeVar (cpaContext g' ! i)) [0..<length (cpaContext g')]"
    using tv g'(2,3) by simp
  show ?thesis unfolding consistent_def using 1 2 3 by blast
qed

lemma consistent_resolveValue:
  assumes "consistent g"
  shows "consistent (resolveValue v g)"
proof (cases "valueTypeMap g v")
  case (Some n)
  then have "resolveValue v g = g" by (simp add: resolveValue_def resolveValueType_def)
  then show ?thesis using assms by simp
next
  case None
  let ?ctx = "cpaContext g"
  show ?thesis
  proof (cases "getType v = UnknownType")
    case True
    show ?thesis
      using assms None
      by (rule consistent_allocate)
         (simp_all add: True None resolveValue_def resolveValueType_def newTypeVar_def
                        nodeFor_def isTypeVar_def)
  next
    case False
    show ?thesis
    proof (cases "findNode (IRValueType (getType v)) ?ctx 0")
      case (Some i)
      have i: "i < length ?ctx" "?ctx ! i = nodeFor v"
        using findNode_Some [OF Some] False by (simp_all add: nodeFor_def)
      show ?thesis
        using assms None i
        by (rule consistent_reuse)
           (simp_all add: False None Some resolveValue_def resolveValueType_def
                          getIRValueType_def)
    next
      case f: None
      show ?thesis
        using assms None
        by (rule consistent_allocate)
           (simp_all add: False None f resolveValue_def resolveValueType_def
                          getIRValueType_def nodeFor_def isTypeVar_def)
    qed
  qed
qed

lemma consistent_update [simp]:
  "consistent (g\<lparr>constraints := cs\<rparr>) = consistent g"
  "consistent (g\<lparr>diagnostics := ds\<rparr>) = consistent g"
  "consistent (g\<lparr>funcReturnOp := r\<rparr>) = consistent g"
  "consistent (g\<lparr>innerReturnLikeOps := rs\<rparr>) = consistent g"
  by (simp_all add: consistent_def)

lemma consistent_callback: "consistent g \<Longrightarrow> consistent (snd (callback f c p g))"
  by (rule invariant_callback) (simp_all add: consistent_resolveValue)

lemma consistent_walkFrom: "consistent g \<Longrightarrow> consistent (snd (walkFrom f vs g))"
  by (rule invariant_walkFrom) (simp_all add: consistent_callback)

lemma count_list_filter_upt:
  "count_list (filter P [0..<k]) n = (if n < k \<and> P n then 1 else 0)"
  by (induction k) auto

lemma consistent_typeVar_once:
  assumes "consistent g" and "valueTypeMap g v = Some n" and "getType v = UnknownType"
  shows "count_list (typeVars g) n = 1" and "count_list (cpaContext g) (TypeVar v) = 1"
proof -
  let ?ctx = "cpaContext g"
  have "n < length ?ctx \<and> ?ctx ! n = nodeFor v"
    using assms(1,2) unfolding consistent_def by blast
  then have n: "n < length ?ctx" "?ctx ! n = TypeVar v"
    using assms(3) by (simp_all add: nodeFor_def)
  have tv: "typeVars g = filter (\<lambda>i. isTypeVar (?ctx ! i)) [0..<length ?ctx]"
    using assms(1) unfolding consistent_def by blast
  show "count_list (typeVars g) n = 1"
    unfolding tv using n by (simp add: count_list_filter_upt isTypeVar_def)
  have "\<And>i. i < length ?ctx \<Longrightarrow> ?ctx ! i = TypeVar v \<Longrightarrow> valueTypeMap g v = Some i"
    using assms(1) unfolding consistent_def by blast
  then have u: "i < length ?ctx \<and> TypeVar v = ?ctx ! i \<Longrightarrow> i = n" for i
    using assms(2) by (metis option.inject)
  have "(i < length ?ctx \<and> TypeVar v = ?ctx ! i) = (i = n)" for i
  proof
    assume "i < length ?ctx \<and> TypeVar v = ?ctx ! i"
    then show "i = n" by (rule u)
  next
    assume "i = n"
    then show "i < length ?ctx \<and> TypeVar v = ?ctx ! i" using n by simp
  qed
  then have "{i. i < length ?ctx \<and> TypeVar v = ?ctx ! i} = {n}"
    by (simp only: singleton_conv)
  then show "count_list ?ctx (TypeVar v) = 1"
    by (simp add: count_list_eq_length_filter length_filter_conv_card)
qed

section \<open>The result of a run\<close>

text \<open>
  \<^verbatim>\<open>runOnFunction\<close> ends with \<^verbatim>\<open>return success(result.wasInterrupted())\<close>: for a
  function with a body the result is a success exactly when the walk was interrupted.
\<close>

lemma runOnFunction_result:
  "fst (runOnFunction funcOp g) =
     (if getBody funcOp = [] then Success
      else if fst (walk funcOp (resolveEntryArguments funcOp g)) = interrupt then Success
      else Failure)"
  by (simp add: runOnFunction_def success_def wasInterrupted_def case_prod_beta)

section \<open>The chain of recorded returns\<close>

text \<open>
  A visit that is not a function-level return advances, leaves the recorded return alone
  and adds no constraint of the function-return rule.
\<close>

lemma returnConstraints_append [simp]:
  "returnConstraints (xs @ ys) = returnConstraints xs @ returnConstraints ys"
  by (simp add: returnConstraints_def)

lemma returnConstraints_Nil [simp]: "returnConstraints [] = []"
  by (simp add: returnConstraints_def)

lemma returnConstraints_edges:
  "returnConstraints (map (\<lambda>p. edge g (sp p) (sb p) op) ps) =
     (if isReturnFallback op then map (\<lambda>p. edge g (sp p) (sb p) op) ps else [])"
  by (induction ps) (simp_all add: returnConstraints_def edge_def)

lemma returnConstraints_addSubtypeConstraint:
  "returnConstraints (constraints (addSubtypeConstraint a b op g)) =
     returnConstraints (constraints g) @
     (if isReturnFallback op then [edge (addSubtypeConstraint a b op g) a b op] else [])"
  by (simp add: addSubtypeConstraint_constraints [of a b op g])
     (simp add: returnConstraints_def edge_def)

lemma returnConstraints_fold:
  "returnConstraints (constraints (fold (\<lambda>p. addSubtypeConstraint (sp p) (sb p) op) ps g)) =
     returnConstraints (constraints g) @
     (if isReturnFallback op
      then map (\<lambda>p. edge (fold (\<lambda>p. addSubtypeConstraint (sp p) (sb p) op) ps g) (sp p) (sb p) op) ps
      else [])"
  by (simp only: fold_addSubtypeConstraint_constraints [of sp sb op ps g]
                 returnConstraints_append returnConstraints_edges)

lemma callback_other_visit:
  assumes "\<not> (c \<noteq> f \<and> isReturnFallback c \<and> p = f)"
  shows "fst (callback f c p g) = advance"
    and "funcReturnOp (snd (callback f c p g)) = funcReturnOp g"
    and "returnConstraints (constraints (snd (callback f c p g))) = returnConstraints (constraints g)"
proof -
  show "fst (callback f c p g) = advance"
    using assms by (auto simp: callback_def isReturnFallback_def split: option.splits)
                   (cases "opName c", simp_all)+
  show "funcReturnOp (snd (callback f c p g)) = funcReturnOp g"
    using assms
    by (auto simp: callback_def isReturnFallback_def emit_def case_prod_addSubtypeConstraint
             split: option.splits)
       (cases "opName c", simp_all)+
  show "returnConstraints (constraints (snd (callback f c p g))) = returnConstraints (constraints g)"
    using assms
    by (auto simp: callback_def isReturnFallback_def emit_def case_prod_addSubtypeConstraint
                   returnConstraints_addSubtypeConstraint returnConstraints_fold
             split: option.splits)
       (cases "opName c", simp_all)+
qed

lemma recordedReturns_Cons: "\<exists>rs'. recordedReturns (r # rs) = r # rs'"
  by (cases rs) simp_all

lemma batch_edges:
  "batch g prev cur = map (\<lambda>(a, b). edge g a b cur) (zip (getOperands prev) (getOperands cur))"
  by (simp add: batch_def edge_def)

lemma batch_stable:
  assumes "\<forall>(a, b) \<in> set (zip (getOperands prev) (getOperands cur)).
             a \<in> dom (valueTypeMap g) \<and> b \<in> dom (valueTypeMap g)"
      and "\<And>w m. valueTypeMap g w = Some m \<Longrightarrow> valueTypeMap g' w = Some m"
  shows "batch g' prev cur = batch g prev cur"
  unfolding batch_edges
proof (rule map_cong [OF refl])
  fix p assume p: "p \<in> set (zip (getOperands prev) (getOperands cur))"
  obtain a b where ab: "p = (a, b)" by (cases p)
  have "a \<in> dom (valueTypeMap g)" "b \<in> dom (valueTypeMap g)" using assms(1) p ab by auto
  then have "edge g' a b cur = edge g a b cur" using assms(2) by (rule edge_stable_dom)
  then show "(case p of (a, b) \<Rightarrow> edge g' a b cur) = (case p of (a, b) \<Rightarrow> edge g a b cur)"
    using ab by simp
qed

lemma returnConstraints_batch:
  "isReturnFallback cur \<Longrightarrow> returnConstraints (batch g prev cur) = batch g prev cur"
  by (simp add: returnConstraints_def batch_def case_prod_beta)

lemma batch_resolved:
  assumes "\<forall>(a, b) \<in> set (zip (getOperands prev) (getOperands cur)).
             a \<in> dom (valueTypeMap g) \<and> b \<in> dom (valueTypeMap g)"
      and "\<And>w m. valueTypeMap g w = Some m \<Longrightarrow> valueTypeMap g' w = Some m"
  shows "\<forall>(a, b) \<in> set (zip (getOperands prev) (getOperands cur)).
           valueTypeMap g' a = Some (nodeOf g' a) \<and> valueTypeMap g' b = Some (nodeOf g' b)"
proof (intro ballI)
  fix p assume p: "p \<in> set (zip (getOperands prev) (getOperands cur))"
  obtain a b where ab: "p = (a, b)" by (cases p)
  have d: "a \<in> dom (valueTypeMap g)" "b \<in> dom (valueTypeMap g)" using assms(1) p ab by auto
  have "a \<in> dom (valueTypeMap g')" "b \<in> dom (valueTypeMap g')"
    using d assms(2) by (auto simp: dom_def)
  then show "case p of (a, b) \<Rightarrow>
               valueTypeMap g' a = Some (nodeOf g' a) \<and> valueTypeMap g' b = Some (nodeOf g' b)"
    using ab by (simp add: resolved_nodeOf)
qed

text \<open>
  The walk from any state: the recorded return, the constraints of the function-return
  rule and the interruption are those of \<open>recordedReturns\<close>, started from the return
  recorded so far.
\<close>

lemma walkFrom_recorded:
  assumes "walkFrom f vs g = (res, g')"
  shows "funcReturnOp g' = lastOption (recordedReturns (recordedSeed g @ functionReturns f vs))
       \<and> returnConstraints (constraints g') =
           returnConstraints (constraints g)
           @ returnChain g' (recordedReturns (recordedSeed g @ functionReturns f vs))
       \<and> operandsResolved g' (recordedReturns (recordedSeed g @ functionReturns f vs))
       \<and> ((res = interrupt) =
           (recordedReturns (recordedSeed g @ functionReturns f vs)
              \<noteq> recordedSeed g @ functionReturns f vs))"
  using assms
proof (induction vs arbitrary: g)
  case Nil
  then show ?case
    by (auto simp: functionReturns_def recordedSeed_def lastOption_def operandsResolved_def
             split: option.splits)
next
  case (Cons v vs)
  obtain c p where v: "v = (c, p)" by (cases v)
  obtain r g1 where cb: "callback f c p g = (r, g1)" by (cases "callback f c p g")
  show ?case
  proof (cases "c \<noteq> f \<and> isReturnFallback c \<and> p = f")
    case False
    have r: "r = advance" and fr: "funcReturnOp g1 = funcReturnOp g"
        and rc: "returnConstraints (constraints g1) = returnConstraints (constraints g)"
      using callback_other_visit [OF False, of g] cb by simp_all
    have w: "walkFrom f vs g1 = (res, g')" using Cons.prems v cb r by simp
    have s: "recordedSeed g1 = recordedSeed g" using fr by (simp add: recordedSeed_def)
    have fs: "functionReturns f (v # vs) = functionReturns f vs"
      using False v by (auto simp: functionReturns_def)
    show ?thesis using Cons.IH [OF w] by (simp only: s fs rc)
  next
    case True
    then have n: "c \<noteq> f" and rf: "isReturnFallback c" and p: "p = f" by simp_all
    have fs: "functionReturns f (v # vs) = c # functionReturns f vs"
      using True v by (simp add: functionReturns_def)
    show ?thesis
    proof (cases "funcReturnOp g")
      case None
      have "callback f c f g = (advance, g\<lparr>funcReturnOp := Some c\<rparr>)"
        using n rf None by (rule callback_first_return)
      then have r: "r = advance" and g1: "g1 = g\<lparr>funcReturnOp := Some c\<rparr>"
        using cb p by simp_all
      have w: "walkFrom f vs g1 = (res, g')" using Cons.prems v cb r by simp
      have s: "recordedSeed g = []" "recordedSeed g1 = [c]"
        using None by (simp_all add: recordedSeed_def g1)
      have c1: "constraints g1 = constraints g" by (simp add: g1)
      show ?thesis using Cons.IH [OF w] by (simp add: s fs c1)
    next
      case (Some r0)
      have s: "recordedSeed g = [r0]" using Some by (simp add: recordedSeed_def)
      show ?thesis
      proof (cases "getNumOperands r0 = getNumOperands c")
        case False
        have "callback f c f g = (interrupt, emitOpError c ''different arity of function returns'' g)"
          using n rf Some False by (rule callback_mismatch)
        then have r: "r = interrupt"
            and g1: "g1 = emitOpError c ''different arity of function returns'' g"
          using cb p by simp_all
        have e: "res = interrupt" "g' = g1" using Cons.prems v cb r by simp_all
        show ?thesis
          using False Some
          by (simp add: s fs e g1 emitOpError_def emit_def lastOption_def operandsResolved_def)
      next
        case True
        obtain g2 where cb2: "callback f c f g = (advance, g2)"
            and f2: "funcReturnOp g2 = Some c"
            and c2: "constraints g2 = constraints g @
                       map (\<lambda>(a, b). edge g2 a b c) (zip (getOperands r0) (getOperands c))"
            and d2: "\<forall>(a, b) \<in> set (zip (getOperands r0) (getOperands c)).
                       a \<in> dom (valueTypeMap g2) \<and> b \<in> dom (valueTypeMap g2)"
          using callback_later_return [OF n rf Some True] by blast
        have r: "r = advance" and g1: "g1 = g2" using cb cb2 p by simp_all
        have w: "walkFrom f vs g2 = (res, g')" using Cons.prems v cb r g1 by simp
        have s2: "recordedSeed g2 = [c]" using f2 by (simp add: recordedSeed_def)
        let ?R' = "recordedReturns (c # functionReturns f vs)"
        obtain R'' where R': "?R' = c # R''" using recordedReturns_Cons by blast
        have R: "recordedReturns (recordedSeed g @ functionReturns f (v # vs)) = r0 # ?R'"
          using True by (simp add: s fs)
        have ih: "funcReturnOp g' = lastOption ?R'"
                 "returnConstraints (constraints g') =
                    returnConstraints (constraints g2) @ returnChain g' ?R'"
                 "operandsResolved g' ?R'"
                 "(res = interrupt) = (?R' \<noteq> c # functionReturns f vs)"
          using Cons.IH [OF w] by (simp_all add: s2)
        have keeps: "\<And>w m. valueTypeMap g2 w = Some m \<Longrightarrow> valueTypeMap g' w = Some m"
          using walkFrom_keeps [of g2 _ _ f vs] w by simp
        have b: "batch g' r0 c = batch g2 r0 c" using d2 keeps by (rule batch_stable)
        have "returnConstraints (constraints g2) =
                returnConstraints (constraints g) @ batch g2 r0 c"
          using rf by (simp add: c2 returnConstraints_batch batch_edges [symmetric])
        then have 2: "returnConstraints (constraints g') =
                returnConstraints (constraints g) @ returnChain g' (r0 # ?R')"
          using ih(2) b by (simp add: R')
        have 1: "funcReturnOp g' = lastOption (r0 # ?R')"
          using ih(1) by (simp add: R' lastOption_def)
        have 3: "operandsResolved g' (r0 # ?R')"
          using ih(3) batch_resolved [OF d2 keeps]
          by (simp add: R' operandsResolved_def)
        have 4: "(res = interrupt) = (r0 # ?R' \<noteq> recordedSeed g @ functionReturns f (v # vs))"
          using ih(4) by (simp add: s fs)
        show ?thesis using 1 2 3 4 by (simp only: R) 
      qed
    qed
  qed
qed

section \<open>Function-level returns are the returns of the body's blocks\<close>

lemma walk_parent_size:
  "(c, q) \<in> set (walkOperation p op) \<Longrightarrow> q = p \<or> size q \<le> size op"
  "(c, q) \<in> set (walkBlock p b) \<Longrightarrow> q = p \<or> size q < size b"
proof (induction p op and p b arbitrary: c q and c q rule: walkOperation_walkBlock.induct)
  case (1 parent i nm n cl r os rs regions)
  let ?op = "Operation i nm n cl r os rs regions"
  show ?case
  proof (cases "(c, q) = (?op, parent)")
    case True
    then show ?thesis by simp
  next
    case False
    then obtain region b where rb: "region \<in> set regions" "b \<in> set region"
        and m: "(c, q) \<in> set (walkBlock ?op b)"
      using "1.prems" by auto
    have "q = ?op \<or> size q < size b" using "1.IH" [OF rb m] .
    moreover have "size b \<le> size_list size region"
      using rb(2) by (simp add: size_list_estimation')
    moreover have "size_list size region \<le> size_list (size_list size) regions"
      using rb(1) by (simp add: size_list_estimation')
    ultimately show ?thesis by auto
  qed
next
  case (2 parent args ops)
  then obtain op where op: "op \<in> set ops" and m: "(c, q) \<in> set (walkOperation parent op)"
    by auto
  have "q = parent \<or> size q \<le> size op" using "2.IH" [OF op m] .
  moreover have "size op \<le> size_list size ops"
    using op by (simp add: size_list_estimation')
  ultimately show ?case by auto
qed

lemma walkOperation_last:
  "\<exists>inner. walkOperation p op = inner @ [(op, p)]
            \<and> (\<forall>(c, q) \<in> set inner. size c < size op \<and> size q \<le> size op)"
proof (cases op)
  case (Operation i nm n cl r os rs regions)
  let ?inner = "concat (map (\<lambda>region. concat (map (walkBlock op) region)) regions)"
  have "size c < size op \<and> size q \<le> size op" if m: "(c, q) \<in> set ?inner" for c q
  proof -
    obtain region b where rb: "region \<in> set regions" "b \<in> set region"
        and w: "(c, q) \<in> set (walkBlock op b)"
      using m by auto
    have "size c < size b" using w by (rule walk_size)
    moreover have "q = op \<or> size q < size b" using w by (rule walk_parent_size)
    moreover have "size b \<le> size_list size region"
      using rb(2) by (simp add: size_list_estimation')
    moreover have "size_list size region \<le> size_list (size_list size) regions"
      using rb(1) by (simp add: size_list_estimation')
    ultimately show ?thesis using Operation by auto
  qed
  then show ?thesis using Operation by auto
qed

lemma functionReturns_walkOperation:
  assumes "size op < size f"
  shows "functionReturns f (walkOperation f op) = (if isReturnFallback op then [op] else [])"
proof -
  obtain inner where w: "walkOperation f op = inner @ [(op, f)]"
      and i: "\<forall>(c, q) \<in> set inner. size c < size op \<and> size q \<le> size op"
    using walkOperation_last by blast
  have "filter (\<lambda>(c, p). c \<noteq> f \<and> isReturnFallback c \<and> p = f) inner = []"
    using i assms by (auto simp: filter_empty_conv)
  moreover have "op \<noteq> f" using assms by auto
  ultimately show ?thesis by (simp add: functionReturns_def w)
qed

lemma functionReturns_append [simp]:
  "functionReturns f (xs @ ys) = functionReturns f xs @ functionReturns f ys"
  by (simp add: functionReturns_def)

lemma functionReturns_ops:
  assumes "\<And>op. op \<in> set ops \<Longrightarrow> size op < size f"
  shows "functionReturns f (concat (map (walkOperation f) ops)) = filter isReturnFallback ops"
  using assms
proof (induction ops)
  case Nil
  show ?case by (simp add: functionReturns_def)
next
  case (Cons op ops)
  then show ?case by (simp add: functionReturns_walkOperation)
qed

lemma functionReturns_blocks:
  assumes "\<And>b. b \<in> set bs \<Longrightarrow> size b < size f"
  shows "functionReturns f (concat (map (walkBlock f) bs)) =
           filter isReturnFallback (concat (map getOperations bs))"
  using assms
proof (induction bs)
  case Nil
  show ?case by (simp add: functionReturns_def)
next
  case (Cons b bs)
  obtain args ops where b: "b = Block args ops" by (cases b)
  have "size op < size f" if "op \<in> set ops" for op
  proof -
    have "size op \<le> size_list size ops" using that by (simp add: size_list_estimation')
    moreover have "size b < size f" using Cons.prems by simp
    ultimately show ?thesis using b by simp
  qed
  then have "functionReturns f (walkBlock f b) = filter isReturnFallback (getOperations b)"
    using b by (simp add: functionReturns_ops)
  then show ?case using Cons by simp
qed

text \<open>
  A function operation has its body as only region; then the function-level returns of the
  walk are the return-like fallback operations of the body's blocks, in block order.
\<close>

lemma functionReturns_direct:
  assumes "getRegions f = [getBody f]"
  shows "functionReturns f (nestedOperations f) = filter isReturnFallback (directOperations f)"
proof -
  have "size b < size f" if "b \<in> set (getBody f)" for b
  proof -
    have "size b \<le> size_list size (getBody f)" using that by (simp add: size_list_estimation')
    moreover have "size f = size_list (size_list size) [getBody f] + 1"
      using assms by (cases f) simp
    ultimately show ?thesis by simp
  qed
  then have "functionReturns f (concat (map (walkBlock f) (getBody f))) =
               filter isReturnFallback (concat (map getOperations (getBody f)))"
    by (rule functionReturns_blocks)
  then show ?thesis using assms by (simp add: nestedOperations_def directOperations_def)
qed

section \<open>Claims\<close>

text \<open>
  Claim C1: run(function) reports failure if and only if the walk aborted on a
  function-level return arity mismatch, and success in every other case. The code does
  the opposite for every function with a body. On \<open>threeReturns\<close> the walk completes
  without any error diagnostic and the run reports failure; on \<open>mismatchFunc\<close> the walk
  is interrupted by the arity mismatch and the run reports success.
\<close>

theorem run_result_inverted:
  "fst (walk threeReturns (resolveEntryArguments threeReturns newGenerator)) = advance
   \<and> errors (snd (runOnFunction threeReturns newGenerator)) = []
   \<and> fst (runOnFunction threeReturns newGenerator) = Failure
   \<and> fst (walk mismatchFunc (resolveEntryArguments mismatchFunc newGenerator)) = interrupt
   \<and> fst (runOnFunction mismatchFunc newGenerator) = Success"
  by code_simp

text \<open>
  Claim C2, as stated: the canonical return is the first function-level return, it is set
  at most once, and every later return is constrained against that first one. On
  \<open>threeReturns\<close> the recorded return after the run is the third return, not the first,
  and the batch of the third return has the operand of the second return as supertype,
  whose node is not the node of the first return's operand.
\<close>

theorem canonical_return_first_counterexample:
  "getLastReturnOp (snd (runOnFunction threeReturns newGenerator)) = Some (returnOf 3 [valZ])
   \<and> getLastReturnOp (snd (runOnFunction threeReturns newGenerator)) \<noteq> Some (returnOf 1 [valX])
   \<and> constraints (snd (runOnFunction threeReturns newGenerator)) =
        [\<lparr>superType = nodeOf (snd (runOnFunction threeReturns newGenerator)) valX,
          subType = nodeOf (snd (runOnFunction threeReturns newGenerator)) valY,
          contextOp = Some (returnOf 2 [valY])\<rparr>,
         \<lparr>superType = nodeOf (snd (runOnFunction threeReturns newGenerator)) valY,
          subType = nodeOf (snd (runOnFunction threeReturns newGenerator)) valZ,
          contextOp = Some (returnOf 3 [valZ])\<rparr>]
   \<and> nodeOf (snd (runOnFunction threeReturns newGenerator)) valY
        \<noteq> nodeOf (snd (runOnFunction threeReturns newGenerator)) valX"
  by code_simp

text \<open>
  Claim C2, amended: the recorded return is the function-level return visited last without
  an arity mismatch. The first function-level return is recorded; each later one whose
  operand count matches the recorded return is constrained positionally against it
  (current operand below the operand of the return recorded just before) and then
  replaces it; visits of other operations leave the recorded return alone; at a mismatch
  the walk is interrupted and the earlier return stays recorded. So the constraints of
  the function-return rule after a run are the chain of batches along the recorded
  returns, and a function with three same-arity function-level returns, whatever else it
  holds, yields two batches: the second return against the first and the third against
  the second, with the third return recorded at the end.
\<close>

theorem recorded_return_chain:
  assumes "getBody funcOp \<noteq> []" and "funcReturnOp g = None"
  shows "getLastReturnOp (snd (runOnFunction funcOp g)) =
           lastOption (recordedReturns (functionReturns funcOp (nestedOperations funcOp)))
       \<and> returnConstraints (constraints (snd (runOnFunction funcOp g))) =
           returnConstraints (constraints g)
           @ returnChain (snd (runOnFunction funcOp g))
               (recordedReturns (functionReturns funcOp (nestedOperations funcOp)))
       \<and> operandsResolved (snd (runOnFunction funcOp g))
           (recordedReturns (functionReturns funcOp (nestedOperations funcOp)))
       \<and> ((fst (walk funcOp (resolveEntryArguments funcOp g)) = interrupt) =
           (recordedReturns (functionReturns funcOp (nestedOperations funcOp))
              \<noteq> functionReturns funcOp (nestedOperations funcOp)))
       \<and> (\<forall>r1 r2 r3.
             functionReturns funcOp (nestedOperations funcOp) = [r1, r2, r3]
             \<and> getNumOperands r1 = getNumOperands r2 \<and> getNumOperands r2 = getNumOperands r3
             \<longrightarrow> fst (walk funcOp (resolveEntryArguments funcOp g)) = advance
               \<and> getLastReturnOp (snd (runOnFunction funcOp g)) = Some r3
               \<and> returnConstraints (constraints (snd (runOnFunction funcOp g))) =
                   returnConstraints (constraints g)
                   @ batch (snd (runOnFunction funcOp g)) r1 r2
                   @ batch (snd (runOnFunction funcOp g)) r2 r3)"
proof -
  let ?g0 = "resolveEntryArguments funcOp g"
  let ?rets = "functionReturns funcOp (nestedOperations funcOp)"
  obtain res g' where w: "walkFrom funcOp (nestedOperations funcOp) ?g0 = (res, g')"
    by (cases "walkFrom funcOp (nestedOperations funcOp) ?g0")
  have f0: "funcReturnOp ?g0 = None"
    using assms(2) by (simp add: resolveEntryArguments_def split: list.splits)
  have c0: "constraints ?g0 = constraints g"
    by (simp add: resolveEntryArguments_def split: list.splits)
  have s0: "recordedSeed ?g0 = []" using f0 by (simp add: recordedSeed_def)
  have run: "snd (runOnFunction funcOp g) = g'"
    using assms(1) w by (simp add: runOnFunction_def walk_def)
  have wr: "fst (walk funcOp ?g0) = res" using w by (simp add: walk_def)
  have m: "funcReturnOp g' = lastOption (recordedReturns ?rets)"
          "returnConstraints (constraints g') =
             returnConstraints (constraints g) @ returnChain g' (recordedReturns ?rets)"
          "operandsResolved g' (recordedReturns ?rets)"
          "(res = interrupt) = (recordedReturns ?rets \<noteq> ?rets)"
    using walkFrom_recorded [OF w] by (simp_all add: s0 c0)
  have three: "res = advance \<and> funcReturnOp g' = Some r3
               \<and> returnConstraints (constraints g') =
                   returnConstraints (constraints g) @ batch g' r1 r2 @ batch g' r2 r3"
    if "?rets = [r1, r2, r3] \<and> getNumOperands r1 = getNumOperands r2
        \<and> getNumOperands r2 = getNumOperands r3" for r1 r2 r3
  proof -
    have "recordedReturns ?rets = [r1, r2, r3]" using that by simp
    then show ?thesis using m that by (cases res) (simp_all add: lastOption_def)
  qed
  show ?thesis
    unfolding run wr getLastReturnOp_def using m three by blast
qed

text \<open>
  The amended claim on \<open>branchFunc\<close>, whose three returns are separated by a selection
  and a binary expression.
\<close>

theorem recorded_return_chain_witness:
  "getBody branchFunc \<noteq> [] \<and> funcReturnOp newGenerator = None
   \<and> functionReturns branchFunc (nestedOperations branchFunc) =
        [returnOf 2 [valX], returnOf 4 [valY], returnOf 5 [valZ]]
   \<and> getNumOperands (returnOf 2 [valX]) = getNumOperands (returnOf 4 [valY])
   \<and> getNumOperands (returnOf 4 [valY]) = getNumOperands (returnOf 5 [valZ])
   \<and> fst (walk branchFunc (resolveEntryArguments branchFunc newGenerator)) = advance
   \<and> getLastReturnOp (snd (runOnFunction branchFunc newGenerator)) = Some (returnOf 5 [valZ])
   \<and> returnConstraints (constraints (snd (runOnFunction branchFunc newGenerator))) =
        [\<lparr>superType = nodeOf (snd (runOnFunction branchFunc newGenerator)) valX,
          subType = nodeOf (snd (runOnFunction branchFunc newGenerator)) valY,
          contextOp = Some (returnOf 4 [valY])\<rparr>,
         \<lparr>superType = nodeOf (snd (runOnFunction branchFunc newGenerator)) valY,
          subType = nodeOf (snd (runOnFunction branchFunc newGenerator)) valZ,
          contextOp = Some (returnOf 5 [valZ])\<rparr>]"
proof -
  have h: "getBody branchFunc \<noteq> []" "funcReturnOp newGenerator = None"
    by (simp_all add: getBody_def branchFunc_def funcOf_def newGenerator_def)
  have r: "functionReturns branchFunc (nestedOperations branchFunc) =
             [returnOf 2 [valX], returnOf 4 [valY], returnOf 5 [valZ]]"
    by code_simp
  have a: "getNumOperands (returnOf 2 [valX]) = getNumOperands (returnOf 4 [valY])"
          "getNumOperands (returnOf 4 [valY]) = getNumOperands (returnOf 5 [valZ])"
    by (simp_all add: getNumOperands_def returnOf_def)
  have o: "getOperands (returnOf 2 [valX]) = [valX]" "getOperands (returnOf 4 [valY]) = [valY]"
          "getOperands (returnOf 5 [valZ]) = [valZ]"
    by (simp_all add: returnOf_def)
  have e: "returnConstraints (constraints newGenerator) = []"
    by (simp add: newGenerator_def returnConstraints_def)
  have "fst (walk branchFunc (resolveEntryArguments branchFunc newGenerator)) = advance
      \<and> getLastReturnOp (snd (runOnFunction branchFunc newGenerator)) = Some (returnOf 5 [valZ])
      \<and> returnConstraints (constraints (snd (runOnFunction branchFunc newGenerator))) =
           returnConstraints (constraints newGenerator)
           @ batch (snd (runOnFunction branchFunc newGenerator)) (returnOf 2 [valX]) (returnOf 4 [valY])
           @ batch (snd (runOnFunction branchFunc newGenerator)) (returnOf 4 [valY]) (returnOf 5 [valZ])"
    using recorded_return_chain [OF h] r a by blast
  then show ?thesis
    using h r a by (simp add: e batch_def o)
qed

text \<open>
  Claim C3: when two return-like operations owned directly by the function disagree in
  operand count, the walk is interrupted at some visit \<open>c\<close> of the function's own
  operations; the state of the run is the state reached by the visits before \<open>c\<close> plus
  one error diagnostic at \<open>c\<close>, so the constraints are exactly those generated before
  \<open>c\<close>, and the run adds exactly one error diagnostic.
\<close>

theorem return_arity_mismatch_aborts:
  assumes "r1 \<in> set (directOperations funcOp)" and "r2 \<in> set (directOperations funcOp)"
      and "isReturnFallback r1" and "isReturnFallback r2"
      and "getNumOperands r1 \<noteq> getNumOperands r2"
  shows "\<exists>pre c post g1.
           nestedOperations funcOp = pre @ (c, funcOp) # post
         \<and> walkFrom funcOp pre (resolveEntryArguments funcOp g) = (advance, g1)
         \<and> isReturnFallback c
         \<and> (\<exists>ret. funcReturnOp g1 = Some ret \<and> getNumOperands ret \<noteq> getNumOperands c)
         \<and> walk funcOp (resolveEntryArguments funcOp g) =
               (interrupt, emitOpError c ''different arity of function returns'' g1)
         \<and> snd (runOnFunction funcOp g) =
               emitOpError c ''different arity of function returns'' g1
         \<and> constraints (snd (runOnFunction funcOp g)) = constraints g1
         \<and> errors (snd (runOnFunction funcOp g)) =
               errors g @ [Diagnostic Error c (opErrorMessage c ''different arity of function returns'')]"
proof -
  let ?g0 = "resolveEntryArguments funcOp g"
  have v1: "(r1, funcOp) \<in> set (nestedOperations funcOp)"
    using assms(1) by (rule directOperations_visited)
  have v2: "(r2, funcOp) \<in> set (nestedOperations funcOp)"
    using assms(2) by (rule directOperations_visited)
  have n1: "r1 \<noteq> funcOp" using v1 by (rule nestedOperations_neq)
  have n2: "r2 \<noteq> funcOp" using v2 by (rule nestedOperations_neq)
  have body: "getBody funcOp \<noteq> []"
    using assms(1) by (simp add: directOperations_body)
  obtain res g' where w: "walkFrom funcOp (nestedOperations funcOp) ?g0 = (res, g')"
    by (cases "walkFrom funcOp (nestedOperations funcOp) ?g0")
  have "res = interrupt"
  proof (rule ccontr)
    assume "res \<noteq> interrupt"
    then have a: "walkFrom funcOp (nestedOperations funcOp) ?g0 = (advance, g')"
      using w by (cases res) simp_all
    have "returnArity g' = Some (getNumOperands r1)"
      using a v1 n1 assms(3) by (rule walkFrom_advance_return)
    moreover have "returnArity g' = Some (getNumOperands r2)"
      using a v2 n2 assms(4) by (rule walkFrom_advance_return)
    ultimately show False using assms(5) by simp
  qed
  then obtain pre c p post g1 where d: "nestedOperations funcOp = pre @ (c, p) # post"
      and pre: "walkFrom funcOp pre ?g0 = (advance, g1)"
      and cb: "callback funcOp c p g1 = (interrupt, g')"
    using w walkFrom_interrupt by blast
  have p: "p = funcOp" and g': "g' = emitOpError c ''different arity of function returns'' g1"
      and rc: "isReturnFallback c"
      and mm: "\<exists>ret. funcReturnOp g1 = Some ret \<and> getNumOperands ret \<noteq> getNumOperands c"
    using callback_interrupt [OF cb] by simp_all
  have e0: "errors ?g0 = errors g"
    by (simp add: resolveEntryArguments_def split: list.splits)
  have e1: "errors g1 = errors ?g0" using pre by (rule walkFrom_advance_errors)
  have run: "snd (runOnFunction funcOp g) = g'"
    using body w by (simp add: runOnFunction_def walk_def)
  have "constraints g' = constraints g1" by (simp add: g' emitOpError_def emit_def)
  moreover have "errors g' =
      errors g @ [Diagnostic Error c (opErrorMessage c ''different arity of function returns'')]"
    by (simp add: g' emitOpError_def errors_emit e1 e0)
  ultimately show ?thesis
    using d pre w \<open>res = interrupt\<close> run p g' rc mm by (auto simp: walk_def)
qed

text \<open>Claim C3 on \<open>mismatchFunc\<close>, whose returns have one and two operands.\<close>

theorem return_arity_mismatch_aborts_witness:
  "returnOf 1 [valX] \<in> set (directOperations mismatchFunc)
   \<and> returnOf 2 [valX, valY] \<in> set (directOperations mismatchFunc)
   \<and> isReturnFallback (returnOf 1 [valX]) \<and> isReturnFallback (returnOf 2 [valX, valY])
   \<and> getNumOperands (returnOf 1 [valX]) \<noteq> getNumOperands (returnOf 2 [valX, valY])
   \<and> (\<exists>c g1. walk mismatchFunc (resolveEntryArguments mismatchFunc newGenerator) =
                 (interrupt, emitOpError c ''different arity of function returns'' g1)
          \<and> constraints (snd (runOnFunction mismatchFunc newGenerator)) = constraints g1
          \<and> errors (snd (runOnFunction mismatchFunc newGenerator)) =
                [Diagnostic Error c (opErrorMessage c ''different arity of function returns'')])"
proof -
  have d: "returnOf 1 [valX] \<in> set (directOperations mismatchFunc)"
          "returnOf 2 [valX, valY] \<in> set (directOperations mismatchFunc)"
    by (simp_all add: directOperations_def getBody_def mismatchFunc_def funcOf_def)
  have r: "isReturnFallback (returnOf 1 [valX])" "isReturnFallback (returnOf 2 [valX, valY])"
    by (simp_all add: isReturnFallback_def returnOf_def)
  have a: "getNumOperands (returnOf 1 [valX]) \<noteq> getNumOperands (returnOf 2 [valX, valY])"
    by (simp add: getNumOperands_def returnOf_def)
  have e: "errors newGenerator = []" by (simp add: errors_def newGenerator_def)
  show ?thesis
    using d r a return_arity_mismatch_aborts [OF d r a, of newGenerator] unfolding e
    by (simp only: append_Nil) blast
qed

text \<open>
  Claim C4: resolution is memoized and total. In a consistent state, resolving a value
  returns a node and records it; resolving it again, at once or after any further visits
  of a walk, returns the same node and changes nothing. The first resolution of an
  unknown-typed value allocates one type variable and appends it to the type-variable
  set, and at every later point of the walk that node occurs exactly once in the
  type-variable set and the arena holds exactly one type variable for the value.
\<close>

theorem resolveValueType_memoized:
  assumes "consistent g"
  shows "\<exists>n g1. resolveValueType v g = (n, g1)
           \<and> consistent g1
           \<and> valueTypeMap g1 v = Some n
           \<and> resolveValueType v g1 = (n, g1)
           \<and> (valueTypeMap g v = None \<and> getType v = UnknownType \<longrightarrow>
                 cpaContext g1 = cpaContext g @ [TypeVar v] \<and> typeVars g1 = typeVars g @ [n])
           \<and> (\<forall>f visits.
                 resolveValueType v (snd (walkFrom f visits g1)) = (n, snd (walkFrom f visits g1))
               \<and> (getType v = UnknownType \<longrightarrow>
                     count_list (typeVars (snd (walkFrom f visits g1))) n = 1
                   \<and> count_list (cpaContext (snd (walkFrom f visits g1))) (TypeVar v) = 1))"
proof -
  obtain n g1 where r: "resolveValueType v g = (n, g1)" by (cases "resolveValueType v g")
  have g1: "g1 = resolveValue v g" using r by (simp add: resolveValue_def)
  have c1: "consistent g1" unfolding g1 using assms by (rule consistent_resolveValue)
  have m1: "valueTypeMap g1 v = Some n" using r by (rule resolveValueType_records)
  have again: "resolveValueType v g1 = (n, g1)" using m1 by (rule resolveValueType_cached)
  have first: "valueTypeMap g v = None \<and> getType v = UnknownType \<longrightarrow>
                 cpaContext g1 = cpaContext g @ [TypeVar v] \<and> typeVars g1 = typeVars g @ [n]"
    using r by (auto simp: resolveValueType_def newTypeVar_def)
  have later: "resolveValueType v (snd (walkFrom f visits g1)) = (n, snd (walkFrom f visits g1))
               \<and> (getType v = UnknownType \<longrightarrow>
                     count_list (typeVars (snd (walkFrom f visits g1))) n = 1
                   \<and> count_list (cpaContext (snd (walkFrom f visits g1))) (TypeVar v) = 1)"
    for f visits
  proof -
    let ?g2 = "snd (walkFrom f visits g1)"
    have m2: "valueTypeMap ?g2 v = Some n" using m1 by (rule walkFrom_keeps)
    have c2: "consistent ?g2" using c1 by (rule consistent_walkFrom)
    show ?thesis
      using resolveValueType_cached [OF m2] consistent_typeVar_once [OF c2 m2] by simp
  qed
  show ?thesis using r c1 m1 again first later by blast
qed

text \<open>Claim C4 for the value \<open>x\<close> in a fresh generator, followed by the walk of \<open>addFunc\<close>.\<close>

theorem resolveValueType_memoized_witness:
  "consistent newGenerator
   \<and> (\<exists>n g1. resolveValueType valX newGenerator = (n, g1)
         \<and> resolveValueType valX g1 = (n, g1)
         \<and> cpaContext g1 = [TypeVar valX] \<and> typeVars g1 = [n]
         \<and> resolveValueType valX (snd (walk addFunc g1)) = (n, snd (walk addFunc g1))
         \<and> count_list (typeVars (snd (walk addFunc g1))) n = 1
         \<and> count_list (cpaContext (snd (walk addFunc g1))) (TypeVar valX) = 1)"
proof -
  have h: "consistent newGenerator" by (simp add: consistent_def newGenerator_def)
  have u: "valueTypeMap newGenerator valX = None \<and> getType valX = UnknownType"
    by (simp add: newGenerator_def valX_def)
  have e: "cpaContext newGenerator = []" "typeVars newGenerator = []"
    by (simp_all add: newGenerator_def)
  show ?thesis
    using h u e resolveValueType_memoized [OF h, of valX]
    unfolding walk_def by (metis append_Nil)
qed

text \<open>
  Claim C5: a selection over (condition, true value, false value) appends exactly one
  constraint, with the node of the true value as supertype and the node of the false
  value as subtype, and emits no diagnostic.
\<close>

theorem select_constraint_direction:
  assumes "childOp \<noteq> funcOp" and "opName childOp = SelectOp"
      and "getOperands childOp = [cond, a, b]"
  shows "\<exists>g'. callback funcOp childOp parentOp g = (advance, g')
           \<and> constraints g' = constraints g @
                 [\<lparr>superType = nodeOf g' a, subType = nodeOf g' b, contextOp = Some childOp\<rparr>]
           \<and> valueTypeMap g' a = Some (nodeOf g' a)
           \<and> valueTypeMap g' b = Some (nodeOf g' b)
           \<and> diagnostics g' = diagnostics g"
proof -
  let ?g' = "addSubtypeConstraint a b childOp g"
  have "callback funcOp childOp parentOp g = (advance, ?g')"
    using assms by (simp add: callback_def true_value_def false_value_def)
  moreover have "constraints ?g' = constraints g @ [edge ?g' a b childOp]"
    by (rule addSubtypeConstraint_constraints)
  ultimately show ?thesis
    by (simp add: edge_def addSubtypeConstraint_records)
qed

text \<open>Claim C5 on the selection of \<open>selectFunc\<close>.\<close>

theorem select_constraint_direction_witness:
  "selectOp \<noteq> selectFunc \<and> opName selectOp = SelectOp
   \<and> getOperands selectOp = [valCond, valX, valY]
   \<and> (\<exists>g'. callback selectFunc selectOp selectFunc newGenerator = (advance, g')
          \<and> constraints g' =
               [\<lparr>superType = nodeOf g' valX, subType = nodeOf g' valY,
                 contextOp = Some selectOp\<rparr>])"
proof -
  have h: "selectOp \<noteq> selectFunc" "opName selectOp = SelectOp"
          "getOperands selectOp = [valCond, valX, valY]"
    by (simp_all add: selectOp_def selectFunc_def funcOf_def)
  have e: "constraints newGenerator = []" by (simp add: newGenerator_def)
  show ?thesis
    using h select_constraint_direction [OF h, of selectFunc newGenerator] unfolding e
    by (simp only: append_Nil) blast
qed

text \<open>
  Claim C6: a binary expression with operands (left, right) and one result appends exactly
  two constraints, both with the node of the left operand as supertype: first the right
  operand, then the result, as subtype.
\<close>

theorem binary_expr_constraints:
  assumes "childOp \<noteq> funcOp" and "opName childOp = BinaryExprOp"
      and "getOperands childOp = [l, r]" and "getResults childOp = [res]"
  shows "\<exists>g'. callback funcOp childOp parentOp g = (advance, g')
           \<and> constraints g' = constraints g @
                 [\<lparr>superType = nodeOf g' l, subType = nodeOf g' r, contextOp = Some childOp\<rparr>,
                  \<lparr>superType = nodeOf g' l, subType = nodeOf g' res, contextOp = Some childOp\<rparr>]
           \<and> valueTypeMap g' l = Some (nodeOf g' l)
           \<and> valueTypeMap g' r = Some (nodeOf g' r)
           \<and> valueTypeMap g' res = Some (nodeOf g' res)
           \<and> diagnostics g' = diagnostics g"
proof -
  let ?g1 = "addSubtypeConstraint l r childOp g"
  let ?g' = "addSubtypeConstraint l res childOp ?g1"
  have cb: "callback funcOp childOp parentOp g = (advance, ?g')"
    using assms by (simp add: callback_def left_def right_def result_def)
  have c1: "constraints ?g1 = constraints g @ [edge ?g1 l r childOp]"
    by (rule addSubtypeConstraint_constraints)
  have c2: "constraints ?g' = constraints ?g1 @ [edge ?g' l res childOp]"
    by (rule addSubtypeConstraint_constraints)
  have e: "edge ?g' l r childOp = edge ?g1 l r childOp"
    by (rule edge_stable) (simp_all add: addSubtypeConstraint_records addSubtypeConstraint_keeps)
  have r: "valueTypeMap ?g' r = Some (nodeOf ?g1 r)"
    by (rule addSubtypeConstraint_keeps) (rule addSubtypeConstraint_records)
  have r': "valueTypeMap ?g' r = Some (nodeOf ?g' r)"
    using r nodeOf_cached [OF r] by simp
  have "constraints ?g' = constraints g @ [edge ?g' l r childOp, edge ?g' l res childOp]"
    by (simp only: c2 c1 e append.simps append_assoc)
  then show ?thesis
    using cb r' by (simp add: edge_def addSubtypeConstraint_records)
qed

text \<open>Claim C6 on the binary expression of \<open>addFunc\<close>.\<close>

theorem binary_expr_constraints_witness:
  "addOp \<noteq> addFunc \<and> opName addOp = BinaryExprOp
   \<and> getOperands addOp = [valX, valY] \<and> getResults addOp = [valZ]
   \<and> (\<exists>g'. callback addFunc addOp addFunc newGenerator = (advance, g')
          \<and> constraints g' =
               [\<lparr>superType = nodeOf g' valX, subType = nodeOf g' valY, contextOp = Some addOp\<rparr>,
                \<lparr>superType = nodeOf g' valX, subType = nodeOf g' valZ, contextOp = Some addOp\<rparr>])"
proof -
  have h: "addOp \<noteq> addFunc" "opName addOp = BinaryExprOp"
          "getOperands addOp = [valX, valY]" "getResults addOp = [valZ]"
    by (simp_all add: addOp_def addFunc_def funcOf_def)
  have e: "constraints newGenerator = []" by (simp add: newGenerator_def)
  show ?thesis
    using h binary_expr_constraints [OF h, of addFunc newGenerator] unfolding e
    by (simp only: append_Nil) blast
qed

text \<open>
  Claim C7: a yield whose operand count differs from the result count of its parent gets
  a warning and no constraint, and the run still succeeds. On \<open>yieldFunc\<close>, whose
  \<^verbatim>\<open>scf.if\<close> has two results and whose yield has one operand, the warning is emitted,
  no constraint is generated and the walk completes, but the run reports failure.
\<close>

theorem yield_mismatch_run_fails:
  "getNumResults ifOp = 2 \<and> getNumOperands yieldOp = 1
   \<and> diagnostics (snd (runOnFunction yieldFunc newGenerator)) =
        [Diagnostic Warning yieldOp ''cannot run type inference on yield due to arity mismatch'']
   \<and> constraints (snd (runOnFunction yieldFunc newGenerator)) = []
   \<and> fst (walk yieldFunc (resolveEntryArguments yieldFunc newGenerator)) = advance
   \<and> fst (runOnFunction yieldFunc newGenerator) = Failure"
  by code_simp

text \<open>
  Claim C8, as stated: a return-like operation whose parent is not the function
  contributes no constraint and is appended to the inner return-like list. In
  \<open>yieldMatchFunc\<close> the \<^verbatim>\<open>scf.yield\<close> carries the return-like trait and its parent is the
  \<^verbatim>\<open>scf.if\<close>, not the function; the yield case of the callback takes it before the
  return-like fallback, so it contributes the constraint of the yield rule and the inner
  return-like list stays empty.
\<close>

theorem nested_yield_constrained_counterexample:
  "hasReturnLike yieldOp
   \<and> nestedOperations yieldMatchFunc =
        [(yieldOp, ifOne), (ifOne, yieldMatchFunc), (returnOf 3 [valY], yieldMatchFunc)]
   \<and> ifOne \<noteq> yieldMatchFunc
   \<and> constraints (snd (runOnFunction yieldMatchFunc newGenerator)) =
        [\<lparr>superType = nodeOf (snd (runOnFunction yieldMatchFunc newGenerator)) valX,
          subType = nodeOf (snd (runOnFunction yieldMatchFunc newGenerator)) valY,
          contextOp = Some yieldOp\<rparr>]
   \<and> getInnerReturnLikeOps (snd (runOnFunction yieldMatchFunc newGenerator)) = []"
  by code_simp

text \<open>
  Claim C8, amended: a return-like operation whose parent is not the function never
  becomes the recorded function return and adds no constraint of the function-return
  rule. If it reaches the return-like fallback (it is none of the operation classes
  matched before and is not constant-like), it contributes no constraint, resolves no
  value, and is appended to the inner return-like list, where it stays for the rest of
  the walk. A region-exit yield is taken by the yield case instead: it contributes one
  constraint per position, yielded operand above the parent's result, when the counts
  match, and none otherwise.
\<close>

theorem nested_return_not_constrained:
  assumes "childOp \<noteq> funcOp" and "hasReturnLike childOp" and "parentOp \<noteq> funcOp"
  shows "\<exists>g'. callback funcOp childOp parentOp g = (advance, g')
           \<and> getLastReturnOp g' = getLastReturnOp g
           \<and> returnConstraints (constraints g') = returnConstraints (constraints g)
           \<and> (isReturnFallback childOp \<longrightarrow>
                 constraints g' = constraints g
               \<and> valueTypeMap g' = valueTypeMap g
               \<and> getInnerReturnLikeOps g' = getInnerReturnLikeOps g @ [childOp]
               \<and> (\<forall>rest. childOp \<in> set (getInnerReturnLikeOps
                                            (snd (walkFrom funcOp rest g')))))
           \<and> (opName childOp = YieldOp \<longrightarrow>
                 constraints g' = constraints g @
                   (if getNumResults parentOp = getNumOperands childOp
                    then map (\<lambda>(res, opd). \<lparr>superType = nodeOf g' opd, subType = nodeOf g' res,
                                              contextOp = Some childOp\<rparr>)
                             (zip (getResults parentOp) (getOperands childOp))
                    else []))"
proof -
  obtain r g' where cb: "callback funcOp childOp parentOp g = (r, g')"
    by (cases "callback funcOp childOp parentOp g")
  have o: "\<not> (childOp \<noteq> funcOp \<and> isReturnFallback childOp \<and> parentOp = funcOp)"
    using assms(3) by simp
  have r: "r = advance" and fr: "funcReturnOp g' = funcReturnOp g"
      and rc: "returnConstraints (constraints g') = returnConstraints (constraints g)"
    using callback_other_visit [OF o, of g] cb by simp_all
  have fb: "constraints g' = constraints g \<and> valueTypeMap g' = valueTypeMap g
            \<and> getInnerReturnLikeOps g' = getInnerReturnLikeOps g @ [childOp]
            \<and> (\<forall>rest. childOp \<in> set (getInnerReturnLikeOps (snd (walkFrom funcOp rest g'))))"
    if rf: "isReturnFallback childOp"
  proof -
    let ?g' = "emit Remark childOp ''unhandled op in type inference''
                 (g\<lparr>innerReturnLikeOps := innerReturnLikeOps g @ [childOp]\<rparr>)"
    have "callback funcOp childOp parentOp g = (advance, ?g')"
      using assms rf by (simp add: callback_def isReturnFallback_def)
    then have g': "g' = ?g'" using cb by simp
    have "childOp \<in> set (innerReturnLikeOps ?g')" by (simp add: emit_def)
    then have "\<forall>rest. childOp \<in> set (innerReturnLikeOps (snd (walkFrom funcOp rest ?g')))"
      by (simp add: innerReturnLikeOps_walkFrom)
    then show ?thesis
      unfolding g' by (simp add: getInnerReturnLikeOps_def emit_def)
  qed
  have y: "constraints g' = constraints g @
             (if getNumResults parentOp = getNumOperands childOp
              then map (\<lambda>(res, opd). \<lparr>superType = nodeOf g' opd, subType = nodeOf g' res,
                                        contextOp = Some childOp\<rparr>)
                       (zip (getResults parentOp) (getOperands childOp))
              else [])"
    if yo: "opName childOp = YieldOp"
  proof (cases "getNumResults parentOp = getNumOperands childOp")
    case True
    then show ?thesis
      using yield_arity_match [OF assms(1) yo True, of g] cb by auto
  next
    case False
    then show ?thesis
      using yield_arity_mismatch [OF assms(1) yo False, of g] cb by (auto simp: emit_def)
  qed
  show ?thesis
    using cb r fr rc fb y by (simp add: getLastReturnOp_def)
qed

text \<open>
  The amended claim on the \<^verbatim>\<open>shape.assuming_yield\<close> inside the region of \<open>regionOp\<close> in
  \<open>nestedFunc\<close>.
\<close>

theorem nested_return_not_constrained_witness:
  "innerReturn \<noteq> nestedFunc \<and> hasReturnLike innerReturn \<and> regionOp \<noteq> nestedFunc
   \<and> isReturnFallback innerReturn
   \<and> (\<exists>g'. callback nestedFunc innerReturn regionOp newGenerator = (advance, g')
          \<and> constraints g' = constraints newGenerator
          \<and> getLastReturnOp g' = getLastReturnOp newGenerator
          \<and> getInnerReturnLikeOps g' = getInnerReturnLikeOps newGenerator @ [innerReturn]
          \<and> innerReturn \<in> set (getInnerReturnLikeOps
                (snd (walkFrom nestedFunc [(regionOp, nestedFunc)] g'))))"
proof -
  have h: "innerReturn \<noteq> nestedFunc" "hasReturnLike innerReturn" "regionOp \<noteq> nestedFunc"
    by (simp_all add: innerReturn_def nestedFunc_def funcOf_def regionOp_def)
  have f: "isReturnFallback innerReturn"
    by (simp add: innerReturn_def isReturnFallback_def)
  show ?thesis
    using h f nested_return_not_constrained [OF h, of newGenerator] by blast
qed

text \<open>
  Claim C9: on a function whose body is empty the run succeeds and leaves the generator
  as it was: nothing is resolved, no type variable is appended, no constraint is emitted.
\<close>

theorem empty_body_succeeds:
  assumes "getBody funcOp = []"
  shows "runOnFunction funcOp g = (Success, g)"
  using assms by (simp add: runOnFunction_def success_def)

text \<open>Claim C9 on \<open>emptyFunc\<close>.\<close>

theorem empty_body_succeeds_witness:
  "getBody emptyFunc = [] \<and> runOnFunction emptyFunc newGenerator = (Success, newGenerator)"
proof -
  have h: "getBody emptyFunc = []" by (simp add: getBody_def emptyFunc_def)
  show ?thesis using h empty_body_succeeds [OF h, of newGenerator] by simp
qed

text \<open>
  Claim C10: a return-like operation whose parent is not the function, once appended to
  the inner return-like list, falls through to the remark
  \<^verbatim>\<open>unhandled op in type inference\<close>.
\<close>

theorem nested_return_remark:
  assumes "childOp \<noteq> funcOp" and "isReturnFallback childOp" and "parentOp \<noteq> funcOp"
  shows "\<exists>g'. callback funcOp childOp parentOp g = (advance, g')
           \<and> innerReturnLikeOps g' = innerReturnLikeOps g @ [childOp]
           \<and> diagnostics g' = diagnostics g @
                 [Diagnostic Remark childOp ''unhandled op in type inference'']"
  using assms by (simp add: callback_def isReturnFallback_def emit_def)

text \<open>Claim C10 on the return inside the region of \<open>regionOp\<close> in \<open>nestedFunc\<close>.\<close>

theorem nested_return_remark_witness:
  "innerReturn \<noteq> nestedFunc \<and> isReturnFallback innerReturn \<and> regionOp \<noteq> nestedFunc
   \<and> (\<exists>g'. callback nestedFunc innerReturn regionOp newGenerator = (advance, g')
          \<and> innerReturnLikeOps g' = [innerReturn]
          \<and> diagnostics g' = [Diagnostic Remark innerReturn ''unhandled op in type inference''])"
proof -
  have h: "innerReturn \<noteq> nestedFunc" "isReturnFallback innerReturn" "regionOp \<noteq> nestedFunc"
    by (simp_all add: innerReturn_def returnOf_def nestedFunc_def funcOf_def regionOp_def
                      isReturnFallback_def)
  have e: "innerReturnLikeOps newGenerator = []" "diagnostics newGenerator = []"
    by (simp_all add: newGenerator_def)
  show ?thesis
    using h nested_return_remark [OF h, of newGenerator] unfolding e
    by (simp only: append_Nil) blast
qed

end
